theory Spec2Isabelle
  imports Complex_Main "HOL-Library.Sublist" "HOL-Library.Char_ord" "HOL-Library.List_Lexorder"
begin

section \<open>JavaScript numbers and primitive values\<close>

text \<open>
  A JavaScript number is an IEEE 754 double: a finite double, given as the real number
  it denotes, an infinity, or \<open>NaN\<close>. The two zeros are one value, since no operation used
  here tells them apart. Not every real is a double: \<open>finite_double\<close> says which are.
\<close>

datatype number = NaN | NegInf | Num real | PosInf

text \<open>
  Arithmetic is exact arithmetic followed by rounding to the nearest double, ties to the
  even significand. Around \<open>x\<close> the doubles are the multiples of \<open>2^e\<close>, where \<open>e\<close> is 52
  below the binary exponent of \<open>x\<close>, but at least \<open>-1074\<close> (the subnormal numbers) and at
  most \<open>971\<close>; \<open>binade\<close> looks for it from \<open>-1074\<close> upwards. A result of magnitude \<open>2^1024\<close>
  or more is an infinity.
\<close>

definition pow2 :: "int \<Rightarrow> real" where
  "pow2 e = (if 0 \<le> e then 2 ^ nat e else 1 / 2 ^ nat (- e))"

fun binade :: "nat \<Rightarrow> int \<Rightarrow> real \<Rightarrow> int" where
  "binade 0 e x = e"
| "binade (Suc n) e x = (if pow2 (e + 53) \<le> \<bar>x\<bar> then binade n (e + 1) x else e)"

definition ulp_exponent :: "real \<Rightarrow> int" where
  "ulp_exponent x = binade 2045 (- 1074) x"

definition round_half_even :: "real \<Rightarrow> int" where
  "round_half_even y =
     (let f = \<lfloor>y\<rfloor> in
        if y - of_int f < 1 / 2 then f
        else if 1 / 2 < y - of_int f then f + 1
        else if even f then f else f + 1)"

definition round_to_double :: "real \<Rightarrow> number" where
  "round_to_double x =
     (let q = pow2 (ulp_exponent x);
          r = of_int (round_half_even (x / q)) * q
      in if 2 ^ 1024 \<le> r then PosInf else if r \<le> - (2 ^ 1024) then NegInf else Num r)"

definition finite_double :: "real \<Rightarrow> bool" where
  "finite_double r = (round_to_double r = Num r)"

definition is_double :: "number \<Rightarrow> bool" where
  "is_double x = (case x of Num a \<Rightarrow> finite_double a | _ \<Rightarrow> True)"

text \<open>
  The operators \<open>-\<close>, \<open>Math.abs\<close>, \<open><\<close> and \<open><=\<close> on numbers. A comparison with \<open>NaN\<close> is
  false, \<open>Infinity - Infinity\<close> is \<open>NaN\<close>.
\<close>

fun sub_number :: "number \<Rightarrow> number \<Rightarrow> number" where
  "sub_number (Num a) (Num b) = round_to_double (a - b)"
| "sub_number NaN y = NaN"
| "sub_number x NaN = NaN"
| "sub_number PosInf PosInf = NaN"
| "sub_number NegInf NegInf = NaN"
| "sub_number PosInf y = PosInf"
| "sub_number NegInf y = NegInf"
| "sub_number (Num a) PosInf = NegInf"
| "sub_number (Num a) NegInf = PosInf"

fun abs_number :: "number \<Rightarrow> number" where
  "abs_number (Num a) = Num \<bar>a\<bar>"
| "abs_number NaN = NaN"
| "abs_number NegInf = PosInf"
| "abs_number PosInf = PosInf"

fun lt_number :: "number \<Rightarrow> number \<Rightarrow> bool" where
  "lt_number NaN y = False"
| "lt_number x NaN = False"
| "lt_number (Num a) (Num b) = (a < b)"
| "lt_number PosInf y = False"
| "lt_number x NegInf = False"
| "lt_number x y = True"

fun le_number :: "number \<Rightarrow> number \<Rightarrow> bool" where
  "le_number NaN y = False"
| "le_number x NaN = False"
| "le_number (Num a) (Num b) = (a \<le> b)"
| "le_number NegInf y = True"
| "le_number x PosInf = True"
| "le_number x y = False"

text \<open>\<open>a > b\<close> and \<open>a >= b\<close> on numbers.\<close>

definition gt_number :: "number \<Rightarrow> number \<Rightarrow> bool" where
  "gt_number a b = lt_number b a"

definition ge_number :: "number \<Rightarrow> number \<Rightarrow> bool" where
  "ge_number a b = le_number b a"

text \<open>\<open>Number.MAX_VALUE\<close>, the largest finite double: \<open>(2 - 2^-52) * 2^1023\<close>.\<close>

definition MAX_VALUE :: real where
  "MAX_VALUE = 2 ^ 1024 - 2 ^ 971"

text \<open>
  A value of type \<open>number | undefined\<close> is a \<open>number option\<close>, \<open>None\<close> being
  \<open>undefined\<close>; \<open>ToNumber undefined\<close> is \<open>NaN\<close>.
\<close>

fun to_number :: "number option \<Rightarrow> number" where
  "to_number None = NaN"
| "to_number (Some n) = n"

section \<open>Domain computation\<close>

text \<open>
  Modelled from the spec: \<open>d3.min\<close> and \<open>d3.max\<close> of the d3 library, which the repository
  calls and does not contain. With an accessor they return the least (greatest) accessed
  value in natural order, skipping \<open>undefined\<close> and \<open>NaN\<close>, and \<open>undefined\<close> when no
  value is left. The two scans are those of the library: the first looks for the first
  comparable value, the second replaces it whenever a later value is strictly smaller
  (greater).
\<close>

fun d3_min_from :: "number \<Rightarrow> 'a list \<Rightarrow> ('a \<Rightarrow> number option) \<Rightarrow> number" where
  "d3_min_from a [] f = a"
| "d3_min_from a (x # xs) f =
     (case f x of
        None \<Rightarrow> d3_min_from a xs f
      | Some b \<Rightarrow> if gt_number a b then d3_min_from b xs f else d3_min_from a xs f)"

fun d3_min :: "'a list \<Rightarrow> ('a \<Rightarrow> number option) \<Rightarrow> number option" where
  "d3_min [] f = None"
| "d3_min (x # xs) f =
     (case f x of
        None \<Rightarrow> d3_min xs f
      | Some b \<Rightarrow> if ge_number b b then Some (d3_min_from b xs f) else d3_min xs f)"

fun d3_max_from :: "number \<Rightarrow> 'a list \<Rightarrow> ('a \<Rightarrow> number option) \<Rightarrow> number" where
  "d3_max_from a [] f = a"
| "d3_max_from a (x # xs) f =
     (case f x of
        None \<Rightarrow> d3_max_from a xs f
      | Some b \<Rightarrow> if lt_number a b then d3_max_from b xs f else d3_max_from a xs f)"

fun d3_max :: "'a list \<Rightarrow> ('a \<Rightarrow> number option) \<Rightarrow> number option" where
  "d3_max [] f = None"
| "d3_max (x # xs) f =
     (case f x of
        None \<Rightarrow> d3_max xs f
      | Some b \<Rightarrow> if ge_number b b then Some (d3_max_from b xs f) else d3_max xs f)"

text \<open>
  The data points and series of the chart. Only the fields the utilities read are
  named; the rest of each object is the record's extension.
\<close>

record MekkoChartColumnDataPoint =
  categoryIndex :: int
  position :: number
  valueAbsolute :: number

record 'p MekkoChartSeries =
  data :: "'p MekkoChartColumnDataPoint_scheme list"

record NumberRange =
  min_r :: "number option"
  max_r :: "number option"

text \<open>The literal \<open>0.0001\<close> is the double nearest to it.\<close>

definition PctRoundingError :: number where
  "PctRoundingError = round_to_double (1 / 10000)"

definition DefaultNumberRange :: NumberRange where
  "DefaultNumberRange = \<lparr>min_r = Some (Num 0), max_r = Some (Num 10)\<rparr>"

text \<open>
  \<open>calcValueDomain\<close>. \<open>Double.roundToPrecision\<close> belongs to the host's type utilities
  and is the parameter \<open>roundToPrecision\<close>.
\<close>

definition calcValueDomain ::
  "(number option \<Rightarrow> number \<Rightarrow> number option) \<Rightarrow>
   ('p, 's) MekkoChartSeries_scheme list \<Rightarrow> bool \<Rightarrow> NumberRange" where
  "calcValueDomain roundToPrecision series_list is100pct =
     (if length series_list = 0 then
        \<lparr>min_r = min_r DefaultNumberRange, max_r = max_r DefaultNumberRange\<rparr>
      else
        let mn = d3_min series_list
                   (\<lambda>series. d3_min (data series)
                      (\<lambda>dataPoint. Some (sub_number (position dataPoint) (valueAbsolute dataPoint))));
            mx = d3_max series_list
                   (\<lambda>series. d3_max (data series) (\<lambda>dataPoint. Some (position dataPoint)))
        in if is100pct then
             \<lparr>min_r = roundToPrecision mn PctRoundingError,
              max_r = roundToPrecision mx PctRoundingError\<rparr>
           else \<lparr>min_r = mn, max_r = mx\<rparr>)"

section \<open>Closest column\<close>

text \<open>
  \<open>getClosestColumnIndex\<close>: the loop state is the pair \<open>(currentIndex, distance)\<close>, the
  loop runs over the indices \<open>0 ..< columnsCenters.length\<close>.
\<close>

definition closest_step :: "number \<Rightarrow> number list \<Rightarrow> nat \<times> number \<Rightarrow> nat \<Rightarrow> nat \<times> number" where
  "closest_step coordinate columnsCenters st i =
     (let currentDistance = abs_number (sub_number coordinate (columnsCenters ! i))
      in if lt_number currentDistance (snd st) then (i, currentDistance) else st)"

definition getClosestColumnIndex :: "number \<Rightarrow> number list \<Rightarrow> nat" where
  "getClosestColumnIndex coordinate columnsCenters =
     fst (foldl (closest_step coordinate columnsCenters) (0, Num MAX_VALUE)
            [0 ..< length columnsCenters])"


text \<open>
  What the claims say of \<open>calcValueDomain\<close>, in the spec's words: the minimum and the
  maximum over the comparable values (numbers other than \<open>NaN\<close>), that is the value that
  is \<open><=\<close> (\<open>>=\<close>) every one of them, and \<open>undefined\<close> when there is none.
\<close>

fun comparable :: "number option list \<Rightarrow> number list" where
  "comparable [] = []"
| "comparable (None # vs) = comparable vs"
| "comparable (Some NaN # vs) = comparable vs"
| "comparable (Some n # vs) = n # comparable vs"

definition minimum_of :: "number list \<Rightarrow> number option" where
  "minimum_of ns = find (\<lambda>m. list_all (\<lambda>n. le_number m n) ns) ns"

definition maximum_of :: "number list \<Rightarrow> number option" where
  "maximum_of ns = find (\<lambda>m. list_all (\<lambda>n. le_number n m) ns) ns"

text \<open>
  The distance of the coordinate to the centre of column \<open>j\<close> as the program computes
  it, \<open>Math.abs(coordinate - columnsCenters[j])\<close> in double arithmetic.
\<close>

definition computed_distance :: "number \<Rightarrow> number list \<Rightarrow> nat \<Rightarrow> number" where
  "computed_distance c cs j = abs_number (sub_number c (cs ! j))"

section \<open>Primitive values and their comparison\<close>

text \<open>
  \<open>PrimitiveValue\<close> of the host API (string, number, boolean, Date, null), with
  \<open>undefined\<close>. A \<open>Date\<close> carries its time value. The relational operators are those of
  the language: two strings compare by code units, every other pair is compared after
  \<open>ToNumber\<close>, and a comparison with \<open>NaN\<close> is \<open>undefined\<close>, which \<open><\<close>, \<open>>\<close>, \<open><=\<close>
  and \<open>>=\<close> all turn into false. \<open>ToNumber\<close> on strings is the parameter \<open>strnum\<close>.
\<close>

datatype PrimitiveValue =
  Undefined | Null | Boolean bool | Number number | String string | Date number

fun typeof_number :: "PrimitiveValue \<Rightarrow> bool" where
  "typeof_number (Number n) = True"
| "typeof_number _ = False"

fun ToNumber :: "(string \<Rightarrow> number) \<Rightarrow> PrimitiveValue \<Rightarrow> number" where
  "ToNumber strnum Undefined = NaN"
| "ToNumber strnum Null = Num 0"
| "ToNumber strnum (Boolean b) = Num (if b then 1 else 0)"
| "ToNumber strnum (Number n) = n"
| "ToNumber strnum (String s) = strnum s"
| "ToNumber strnum (Date t) = t"

fun compare_numbers :: "number \<Rightarrow> number \<Rightarrow> bool option" where
  "compare_numbers NaN y = None"
| "compare_numbers x NaN = None"
| "compare_numbers x y = Some (lt_number x y)"

fun js_less :: "(string \<Rightarrow> number) \<Rightarrow> PrimitiveValue \<Rightarrow> PrimitiveValue \<Rightarrow> bool option" where
  "js_less strnum (String a) (String b) = Some (a < b)"
| "js_less strnum x y = compare_numbers (ToNumber strnum x) (ToNumber strnum y)"

definition js_gt :: "(string \<Rightarrow> number) \<Rightarrow> PrimitiveValue \<Rightarrow> PrimitiveValue \<Rightarrow> bool" where
  "js_gt strnum x y = (js_less strnum y x = Some True)"

definition js_ge :: "(string \<Rightarrow> number) \<Rightarrow> PrimitiveValue \<Rightarrow> PrimitiveValue \<Rightarrow> bool" where
  "js_ge strnum x y = (js_less strnum x y = Some False)"

definition js_le :: "(string \<Rightarrow> number) \<Rightarrow> PrimitiveValue \<Rightarrow> PrimitiveValue \<Rightarrow> bool" where
  "js_le strnum x y = (js_less strnum y x = Some False)"

text \<open>
  Reading an array at an index: the element, or \<open>undefined\<close> (the first argument) when
  the index is not one of the array's.
\<close>

definition js_index :: "'a \<Rightarrow> 'a list \<Rightarrow> int \<Rightarrow> 'a" where
  "js_index undef xs i = (if 0 \<le> i \<and> i < int (length xs) then xs ! nat i else undef)"

section \<open>The categorical data view\<close>

text \<open>
  The objects of the host's data view, as records. The fields \<open>transformDomain\<close> reads
  are named, every other field of an object is the record's extension. An optional
  field is an \<open>option\<close>; so are the fields and entries the function tests before it uses
  them. \<open>'ty\<close> is the host's value type descriptor, \<open>'o\<close> its \<open>DataViewObjects\<close>.
\<close>

record 'ty DataViewMetadataColumn =
  type :: "'ty option"

record ('ty, 'o, 'm) DataViewCategoryColumn =
  source :: "('ty, 'm) DataViewMetadataColumn_scheme"
  "values" :: "PrimitiveValue list option"
  objects :: "'o option list option"

record DataViewValueColumn =
  "values" :: "PrimitiveValue list"

record ('ty, 'o, 'm, 'c, 'v) DataViewCategorical =
  categories :: "('ty, 'o, 'm, 'c) DataViewCategoryColumn_scheme option list option"
  "values" :: "'v DataViewValueColumn_scheme list option"

text \<open>
  What a call of \<open>transformDomain\<close> ends with: the reference it was given
  (\<open>return dataView\<close>), \<open>undefined\<close> (the bare \<open>return\<close>), a newly derived data view, or
  a \<open>TypeError\<close> (reading a property of a missing category column).
\<close>

datatype 'a outcome = ReturnsInput | ReturnsUndefined | ReturnsNew 'a | ThrowsTypeError


section \<open>Range filter\<close>

text \<open>
  The loops of \<open>transformDomain\<close>. The first pushes one empty array per value column.
  The second walks the category values in order; its state is the three arrays under
  construction, \<open>(newcategoryValues, newObjects, newValues)\<close>, and its inner loop pushes
  the value at the kept index onto the array of each value column. The tests
  \<open>if (categoryObjects)\<close> and \<open>if (dataView.values)\<close> inside the loop are reached only
  with both present, so their branches are taken.
\<close>

definition init_newValues :: "'v DataViewValueColumn_scheme list \<Rightarrow> PrimitiveValue list list" where
  "init_newValues dataView_values =
     foldl (\<lambda>newValues j. newValues @ [[]]) [] [0 ..< length dataView_values]"

definition push_values ::
  "'v DataViewValueColumn_scheme list \<Rightarrow> nat \<Rightarrow> PrimitiveValue list list \<Rightarrow> PrimitiveValue list list" where
  "push_values dataView_values t newValues =
     foldl (\<lambda>nv k. nv[k := nv ! k @
                [js_index Undefined (DataViewValueColumn.values (dataView_values ! k)) (int t)]])
       newValues [0 ..< length dataView_values]"

definition filter_step ::
  "(string \<Rightarrow> number) \<Rightarrow> 'v DataViewValueColumn_scheme list \<Rightarrow> PrimitiveValue list \<Rightarrow>
   'o option list \<Rightarrow> PrimitiveValue \<Rightarrow> PrimitiveValue \<Rightarrow>
   PrimitiveValue list \<times> 'o option list \<times> PrimitiveValue list list \<Rightarrow> nat \<Rightarrow>
   PrimitiveValue list \<times> 'o option list \<times> PrimitiveValue list list" where
  "filter_step strnum dataView_values categoryValues categoryObjects mn mx st t =
     (case st of (newcategoryValues, newObjects, newValues) \<Rightarrow>
        if js_ge strnum (categoryValues ! t) mn \<and> js_le strnum (categoryValues ! t) mx then
          (newcategoryValues @ [categoryValues ! t],
           newObjects @ [js_index None categoryObjects (int t)],
           push_values dataView_values t newValues)
        else st)"

definition filter_loop ::
  "(string \<Rightarrow> number) \<Rightarrow> 'v DataViewValueColumn_scheme list \<Rightarrow> PrimitiveValue list \<Rightarrow>
   'o option list \<Rightarrow> PrimitiveValue \<Rightarrow> PrimitiveValue \<Rightarrow>
   PrimitiveValue list \<times> 'o option list \<times> PrimitiveValue list list" where
  "filter_loop strnum dataView_values categoryValues categoryObjects mn mx =
     foldl (filter_step strnum dataView_values categoryValues categoryObjects mn mx)
       ([], [], init_newValues dataView_values) [0 ..< length categoryValues]"

text \<open>
  The last loop gives every value column of the result its filtered array; the column
  is derived from the input's, so its other fields are the input's.
\<close>

definition set_measures ::
  "'v DataViewValueColumn_scheme list \<Rightarrow> PrimitiveValue list list \<Rightarrow> 'v DataViewValueColumn_scheme list" where
  "set_measures dataView_values newValues =
     foldl (\<lambda>resultDataViewValues t.
              resultDataViewValues[t := (resultDataViewValues ! t)\<lparr>DataViewValueColumn.values := newValues ! t\<rparr>])
       dataView_values [0 ..< length dataView_values]"

text \<open>
  The bounds the filter uses: a bound that is not a number is replaced by
  \<open>categoryValues[0]\<close>, respectively \<open>categoryValues[categoryValues.length - 1]\<close>.
\<close>

definition resolved_min :: "PrimitiveValue \<Rightarrow> PrimitiveValue list \<Rightarrow> PrimitiveValue" where
  "resolved_min mn categoryValues =
     (if \<not> typeof_number mn then js_index Undefined categoryValues 0 else mn)"

definition resolved_max :: "PrimitiveValue \<Rightarrow> PrimitiveValue list \<Rightarrow> PrimitiveValue" where
  "resolved_max mx categoryValues =
     (if \<not> typeof_number mx
      then js_index Undefined categoryValues (int (length categoryValues) - 1) else mx)"

text \<open>
  \<open>transformDomain\<close>. \<open>AxisHelper.isOrdinal\<close> belongs to the host's chart utilities and is
  the parameter \<open>isOrdinal\<close>; it is given \<open>None\<close> for a missing type. An object derived
  with \<open>Prototype.inherit\<close> and then assigned some fields reads as the original with
  those fields updated, which is the record update below.
\<close>

definition transformDomain ::
  "('ty option \<Rightarrow> bool) \<Rightarrow> (string \<Rightarrow> number) \<Rightarrow>
   ('ty, 'o, 'm, 'c, 'v, 'd) DataViewCategorical_scheme \<Rightarrow> PrimitiveValue \<Rightarrow> PrimitiveValue \<Rightarrow>
   ('ty, 'o, 'm, 'c, 'v, 'd) DataViewCategorical_scheme outcome" where
  "transformDomain isOrdinal strnum dataView mn mx =
     (case categories dataView of
        None \<Rightarrow> ReturnsInput
      | Some dataView_categories \<Rightarrow>
     (case DataViewCategorical.values dataView of
        None \<Rightarrow> ReturnsInput
      | Some dataView_values \<Rightarrow>
     if length dataView_categories = 0 \<or> length dataView_values = 0 then ReturnsInput
     else if \<not> typeof_number mn \<and> \<not> typeof_number mx then ReturnsInput
     else
       let category = dataView_categories ! 0;
           categoryType = (case category of Some c \<Rightarrow> type (source c) | None \<Rightarrow> None)
       in if isOrdinal categoryType then ReturnsUndefined
          else
     (case category of
        None \<Rightarrow> ThrowsTypeError
      | Some c \<Rightarrow>
     (case DataViewCategoryColumn.values c of
        None \<Rightarrow> ReturnsInput
      | Some categoryValues \<Rightarrow>
     (case objects c of
        None \<Rightarrow> ReturnsInput
      | Some categoryObjects \<Rightarrow>
       let mn = resolved_min mn categoryValues;
           mx = resolved_max mx categoryValues
       in if js_gt strnum mn mx then ReturnsInput
          else
            (case filter_loop strnum dataView_values categoryValues categoryObjects mn mx of
               (newcategoryValues, newObjects, newValues) \<Rightarrow>
                 let c0 = c\<lparr>DataViewCategoryColumn.values := Some newcategoryValues\<rparr>;
                     c0 = (case objects c0 of Some _ \<Rightarrow> c0\<lparr>objects := Some newObjects\<rparr> | None \<Rightarrow> c0)
                 in ReturnsNew
                      (dataView\<lparr>DataViewCategorical.values :=
                                   Some (set_measures dataView_values newValues),
                                 categories := Some (dataView_categories[0 := Some c0])\<rparr>)))))))"

text \<open>
  What the claims say of the filter, in the spec's words: the indices whose category
  value lies within the bounds, in increasing order, and a sequence restricted to them.
\<close>

definition in_bounds :: "(string \<Rightarrow> number) \<Rightarrow> PrimitiveValue \<Rightarrow> PrimitiveValue \<Rightarrow> PrimitiveValue \<Rightarrow> bool" where
  "in_bounds strnum mn mx v = (js_ge strnum v mn \<and> js_le strnum v mx)"

definition kept_indices ::
  "(string \<Rightarrow> number) \<Rightarrow> PrimitiveValue \<Rightarrow> PrimitiveValue \<Rightarrow> PrimitiveValue list \<Rightarrow> nat list" where
  "kept_indices strnum mn mx categoryValues =
     filter (\<lambda>i. in_bounds strnum mn mx (categoryValues ! i)) [0 ..< length categoryValues]"

text \<open>The kept indices below \<open>n\<close>: the loop's invariant after \<open>n\<close> rounds.\<close>

definition kept_upto ::
  "(string \<Rightarrow> number) \<Rightarrow> PrimitiveValue \<Rightarrow> PrimitiveValue \<Rightarrow> PrimitiveValue list \<Rightarrow> nat \<Rightarrow> nat list" where
  "kept_upto strnum mn mx cv n = filter (\<lambda>i. in_bounds strnum mn mx (cv ! i)) [0 ..< n]"

definition restrict_to :: "'a \<Rightarrow> nat list \<Rightarrow> 'a list \<Rightarrow> 'a list" where
  "restrict_to undef is xs = map (\<lambda>i. js_index undef xs (int i)) is"

section \<open>Selection opacity\<close>

text \<open>
  The rendered scene, as far as \<open>setChosenColumnOpacity\<close> touches it. An element carries
  the data point bound to it, its inline \<open>fill-opacity\<close> style and the target of a
  \<open>fill-opacity\<close> transition scheduled on it (\<open>None\<close>: not set, none scheduled).
  \<open>mainGraphicsContext\<close> is given as the series groups that
  \<open>MekkoChart.SeriesSelector\<close> selects, each the list of its descendants. Whether an
  element matches a selector is the parameter \<open>matches\<close>, which looks at the rest of
  the node (tag name, classes: the record's extension). A selection is the list of the
  positions (group, element) of its elements, in document order.
\<close>

record 'p Element =
  datum :: "'p MekkoChartColumnDataPoint_scheme"
  fill_opacity :: "real option"
  transition_to :: "real option"

definition RectName :: string where
  "RectName = ''rect''"

definition DimmedOpacity :: real where
  "DimmedOpacity = 4 / 10"

definition DefaultOpacity :: real where
  "DefaultOpacity = 1"

definition selectAll ::
  "(string \<Rightarrow> 'e \<Rightarrow> bool) \<Rightarrow> string \<Rightarrow> ('p, 'e) Element_scheme list list \<Rightarrow>
   (nat \<times> nat) list" where
  "selectAll matches selector groups =
     concat (map (\<lambda>i. map (\<lambda>j. (i, j))
                         (filter (\<lambda>j. matches selector (Element.more (groups ! i ! j)))
                            [0 ..< length (groups ! i)]))
               [0 ..< length groups])"

definition filter_selection ::
  "('p MekkoChartColumnDataPoint_scheme \<Rightarrow> bool) \<Rightarrow> ('p, 'e) Element_scheme list list \<Rightarrow>
   (nat \<times> nat) list \<Rightarrow> (nat \<times> nat) list" where
  "filter_selection keep groups selection =
     filter (\<lambda>(i, j). keep (datum (groups ! i ! j))) selection"

definition update_at ::
  "('a \<Rightarrow> 'a) \<Rightarrow> 'a list list \<Rightarrow> nat \<times> nat \<Rightarrow> 'a list list" where
  "update_at f groups p = (case p of (i, j) \<Rightarrow> groups[i := (groups ! i)[j := f (groups ! i ! j)]])"

definition style_fill_opacity ::
  "real \<Rightarrow> (nat \<times> nat) list \<Rightarrow> ('p, 'e) Element_scheme list list \<Rightarrow> ('p, 'e) Element_scheme list list" where
  "style_fill_opacity v selection groups =
     foldl (update_at (\<lambda>e. e\<lparr>fill_opacity := Some v\<rparr>)) groups selection"

definition transition_style_fill_opacity ::
  "real \<Rightarrow> (nat \<times> nat) list \<Rightarrow> ('p, 'e) Element_scheme list list \<Rightarrow> ('p, 'e) Element_scheme list list" where
  "transition_style_fill_opacity v selection groups =
     foldl (update_at (\<lambda>e. e\<lparr>transition_to := Some v\<rparr>)) groups selection"

definition setChosenColumnOpacity ::
  "(string \<Rightarrow> 'e \<Rightarrow> bool) \<Rightarrow> ('p, 'e) Element_scheme list list \<Rightarrow> string \<Rightarrow>
   int \<Rightarrow> int option \<Rightarrow> ('p, 'e) Element_scheme list list" where
  "setChosenColumnOpacity matches mainGraphicsContext columnGroupSelector
       selectedColumnIndex lastColumnIndex =
     (let lastColumnUndefined = (lastColumnIndex = None);
          dimmed = filter_selection
                     (\<lambda>dataPoint. categoryIndex dataPoint \<noteq> selectedColumnIndex
                        \<and> (lastColumnUndefined \<or> Some (categoryIndex dataPoint) = lastColumnIndex))
                     mainGraphicsContext
                     (selectAll matches (RectName @ columnGroupSelector) mainGraphicsContext);
          scene = transition_style_fill_opacity DimmedOpacity dimmed mainGraphicsContext;
          chosen = filter_selection
                     (\<lambda>dataPoint. categoryIndex dataPoint = selectedColumnIndex)
                     scene
                     (selectAll matches (RectName @ columnGroupSelector) scene)
      in style_fill_opacity DefaultOpacity chosen scene)"


section \<open>The range filter on an object heap\<close>

text \<open>
  Whether \<open>transformDomain\<close> mutates its input depends on which objects it writes to,
  so the function is modelled a second time on an explicit store. The heap is the list
  of all objects, an address is an index into it, and a new object is appended. An
  object has a prototype and its own properties; a property is read along the
  prototype chain (a prototype is an older object) and written on the object itself.
  An array is an object with index properties and \<open>length\<close>. A \<open>Date\<close> stays a
  primitive value, and an object compared with \<open><\<close> converts to \<open>NaN\<close>.
\<close>

type_synonym addr = nat

datatype key = Name string | Index nat | NumericName number

datatype hval = Prim PrimitiveValue | Ref addr

record object =
  proto :: "addr option"
  props :: "key \<Rightarrow> hval option"

type_synonym heap = "object list"

function get :: "heap \<Rightarrow> addr \<Rightarrow> key \<Rightarrow> hval" where
  "get h a k =
     (if a < length h then
        (case props (h ! a) k of
           Some v \<Rightarrow> v
         | None \<Rightarrow>
             (case proto (h ! a) of
                Some p \<Rightarrow> if p < a then get h p k else Prim Undefined
              | None \<Rightarrow> Prim Undefined))
      else Prim Undefined)"
  by pat_completeness auto
termination
  by (relation "measure (\<lambda>(h, a, k). a)") auto

declare get.simps [simp del]

definition set_prop :: "addr \<Rightarrow> key \<Rightarrow> hval \<Rightarrow> heap \<Rightarrow> heap" where
  "set_prop a k v h = h[a := (h ! a)\<lparr>props := (props (h ! a))(k \<mapsto> v)\<rparr>]"

text \<open>
  A computation takes the heap and returns an outcome and the new heap: a value, a
  \<open>TypeError\<close>, or \<open>Timeout\<close> when a loop has used up its fuel.
\<close>

datatype 'a result = Ok 'a | TypeError | Timeout

type_synonym 'a comp = "heap \<Rightarrow> 'a result \<times> heap"

definition ret :: "'a \<Rightarrow> 'a comp" where
  "ret x h = (Ok x, h)"

definition bind_comp :: "'a comp \<Rightarrow> ('a \<Rightarrow> 'b comp) \<Rightarrow> 'b comp" where
  "bind_comp m f h =
     (case m h of
        (Ok x, h') \<Rightarrow> f x h'
      | (TypeError, h') \<Rightarrow> (TypeError, h')
      | (Timeout, h') \<Rightarrow> (Timeout, h'))"

text \<open>
  Reading a property of \<open>undefined\<close> or \<open>null\<close> throws; on another primitive value it
  gives \<open>undefined\<close> (the properties of strings are not modelled). Assignment is likewise.
\<close>

definition nullish :: "hval \<Rightarrow> bool" where
  "nullish v = (v = Prim Undefined \<or> v = Prim Null)"

fun truthy :: "hval \<Rightarrow> bool" where
  "truthy (Ref a) = True"
| "truthy (Prim Undefined) = False"
| "truthy (Prim Null) = False"
| "truthy (Prim (Boolean b)) = b"
| "truthy (Prim (Number NaN)) = False"
| "truthy (Prim (Number (Num r))) = (r \<noteq> 0)"
| "truthy (Prim (Number NegInf)) = True"
| "truthy (Prim (Number PosInf)) = True"
| "truthy (Prim (String s)) = (s \<noteq> [])"
| "truthy (Prim (Date t)) = True"

fun prim_of :: "hval \<Rightarrow> PrimitiveValue" where
  "prim_of (Prim p) = p"
| "prim_of (Ref a) = Undefined"

definition read_prop :: "hval \<Rightarrow> key \<Rightarrow> hval comp" where
  "read_prop v k h =
     (case v of
        Ref a \<Rightarrow> (Ok (get h a k), h)
      | Prim p \<Rightarrow> if nullish v then (TypeError, h) else (Ok (Prim Undefined), h))"

definition write_prop :: "hval \<Rightarrow> key \<Rightarrow> hval \<Rightarrow> unit comp" where
  "write_prop v k x h =
     (case v of
        Ref a \<Rightarrow> (Ok (), set_prop a k x h)
      | Prim p \<Rightarrow> if nullish v then (TypeError, h) else (Ok (), h))"

definition alloc :: "object \<Rightarrow> addr comp" where
  "alloc ob h = (Ok (length h), h @ [ob])"

definition new_array :: "addr comp" where
  "new_array = alloc \<lparr>proto = None, props = [Name ''length'' \<mapsto> Prim (Number (Num 0))]\<rparr>"

text \<open>
  \<open>Array.prototype.push\<close>, which the function calls only on the arrays it creates: the
  value is stored at the index \<open>length\<close>, which grows by one. Calling it on a value that
  is not an object throws.
\<close>

definition array_length :: "heap \<Rightarrow> addr \<Rightarrow> nat" where
  "array_length h a =
     (case get h a (Name ''length'') of
        Prim (Number (Num r)) \<Rightarrow> nat \<lfloor>r\<rfloor>
      | _ \<Rightarrow> 0)"

definition push :: "hval \<Rightarrow> hval \<Rightarrow> unit comp" where
  "push v x h =
     (case v of
        Ref a \<Rightarrow>
          (Ok (),
           set_prop a (Name ''length'') (Prim (Number (Num (real (array_length h a + 1)))))
             (set_prop a (Index (array_length h a)) x h))
      | Prim p \<Rightarrow> (TypeError, h))"

text \<open>The array that holds the elements \<open>xs\<close>, as an object.\<close>

definition array_of :: "hval list \<Rightarrow> object" where
  "array_of xs =
     \<lparr>proto = None,
      props = (\<lambda>k. case k of
                 Index i \<Rightarrow> if i < length xs then Some (xs ! i) else None
               | Name s \<Rightarrow> if s = ''length'' then Some (Prim (Number (Num (real (length xs))))) else None
               | NumericName n \<Rightarrow> None)\<rparr>"

text \<open>
  Modelled from the spec: \<open>Prototype.inherit\<close> of the host's type utilities, which the
  repository calls and does not contain, "a shallow-object-derivation utility producing
  an independently mutable copy that inherits unset fields from a prototype object": a
  new object without own properties whose prototype is the argument.
\<close>

definition inherit :: "hval \<Rightarrow> addr comp" where
  "inherit v = alloc \<lparr>proto = (case v of Ref a \<Rightarrow> Some a | Prim p \<Rightarrow> None), props = Map.empty\<rparr>"

text \<open>
  \<open>for (let i = 0; i < bound; i++) body\<close>: the bound is evaluated again in every round,
  and every round uses one unit of fuel. The counter is a double that holds a natural
  number; \<open>i++\<close> adds one and rounds, so that a counter that has reached \<open>2^53\<close> stays
  there.
\<close>

definition incr :: "nat \<Rightarrow> nat" where
  "incr i = (case round_to_double (real i + 1) of Num r \<Rightarrow> nat \<lfloor>r\<rfloor> | _ \<Rightarrow> i)"

fun for_loop ::
  "nat \<Rightarrow> (string \<Rightarrow> number) \<Rightarrow> hval comp \<Rightarrow> (nat \<Rightarrow> unit comp) \<Rightarrow> nat \<Rightarrow> unit comp" where
  "for_loop 0 strnum bound body i h = (Timeout, h)"
| "for_loop (Suc fuel) strnum bound body i h =
     (case bound h of
        (Ok len, h1) \<Rightarrow>
          if js_less strnum (Number (Num (real i))) (prim_of len) = Some True then
            (case body i h1 of
               (Ok u, h2) \<Rightarrow> for_loop fuel strnum bound body (incr i) h2
             | (TypeError, h2) \<Rightarrow> (TypeError, h2)
             | (Timeout, h2) \<Rightarrow> (Timeout, h2))
          else (Ok (), h1)
      | (TypeError, h1) \<Rightarrow> (TypeError, h1)
      | (Timeout, h1) \<Rightarrow> (Timeout, h1))"

text \<open>
  \<open>isOrdinal\<close> reads the heap and does not change it. \<open>last_key\<close> is the property key
  \<open>length - 1\<close>: an index, or a name that no array has.
\<close>

definition ask :: "(heap \<Rightarrow> 'a) \<Rightarrow> 'a comp" where
  "ask f h = (Ok (f h), h)"

definition typeof_number_h :: "hval \<Rightarrow> bool" where
  "typeof_number_h v = typeof_number (prim_of v)"

definition last_key :: "hval \<Rightarrow> key" where
  "last_key len =
     (case sub_number (ToNumber (\<lambda>s. NaN) (prim_of len)) (Num 1) of
        Num r \<Rightarrow> if 0 \<le> r \<and> r = of_int \<lfloor>r\<rfloor> then Index (nat \<lfloor>r\<rfloor>) else NumericName (Num r)
      | n \<Rightarrow> NumericName n)"

text \<open>
  The function on the heap, statement by statement: \<open>dataView.values.length\<close>, the three
  loops, the construction of the result (\<open>derive_h\<close> and its second half
  \<open>derive_tail_h\<close>), the part after the three arrays are created (\<open>build_h\<close>), and the
  whole (\<open>transformDomain_h\<close>).
\<close>

definition values_length :: "addr \<Rightarrow> hval comp" where
  "values_length dataView =
     bind_comp (read_prop (Ref dataView) (Name ''values''))
       (\<lambda>dataView_values. read_prop dataView_values (Name ''length''))"

definition init_newValues_h :: "nat \<Rightarrow> (string \<Rightarrow> number) \<Rightarrow> addr \<Rightarrow> addr \<Rightarrow> unit comp" where
  "init_newValues_h fuel strnum dataView newValues =
     for_loop fuel strnum (values_length dataView)
       (\<lambda>j. bind_comp new_array (\<lambda>empty. push (Ref newValues) (Ref empty))) 0"

definition push_values_h :: "nat \<Rightarrow> (string \<Rightarrow> number) \<Rightarrow> addr \<Rightarrow> addr \<Rightarrow> nat \<Rightarrow> unit comp" where
  "push_values_h fuel strnum dataView newValues t =
     for_loop fuel strnum (values_length dataView)
       (\<lambda>k. bind_comp (read_prop (Ref newValues) (Index k)) (\<lambda>newValues_k.
            bind_comp (read_prop (Ref dataView) (Name ''values'')) (\<lambda>dataView_values.
            bind_comp (read_prop dataView_values (Index k)) (\<lambda>column.
            bind_comp (read_prop column (Name ''values'')) (\<lambda>column_values.
            bind_comp (read_prop column_values (Index t)) (\<lambda>x.
              push newValues_k x)))))) 0"

definition filter_body_h ::
  "nat \<Rightarrow> (string \<Rightarrow> number) \<Rightarrow> addr \<Rightarrow> hval \<Rightarrow> hval \<Rightarrow> hval \<Rightarrow> hval \<Rightarrow>
   addr \<Rightarrow> addr \<Rightarrow> addr \<Rightarrow> nat \<Rightarrow> unit comp" where
  "filter_body_h fuel strnum dataView categoryValues categoryObjects mn mx
       newcategoryValues newValues newObjects t =
     bind_comp (read_prop categoryValues (Index t)) (\<lambda>v.
       if js_ge strnum (prim_of v) (prim_of mn) \<and> js_le strnum (prim_of v) (prim_of mx) then
         bind_comp (push (Ref newcategoryValues) v) (\<lambda>u.
         bind_comp (if truthy categoryObjects
                    then bind_comp (read_prop categoryObjects (Index t))
                           (\<lambda>ob. push (Ref newObjects) ob)
                    else ret ()) (\<lambda>u.
         bind_comp (read_prop (Ref dataView) (Name ''values'')) (\<lambda>dataView_values.
           if truthy dataView_values
           then push_values_h fuel strnum dataView newValues t
           else ret ())))
       else ret ())"

definition set_measures_h :: "nat \<Rightarrow> (string \<Rightarrow> number) \<Rightarrow> addr \<Rightarrow> addr \<Rightarrow> addr \<Rightarrow> unit comp" where
  "set_measures_h fuel strnum dataView newValues resultDataViewValues =
     for_loop fuel strnum (values_length dataView)
       (\<lambda>t. bind_comp (read_prop (Ref resultDataViewValues) (Index t)) (\<lambda>column.
            bind_comp (inherit column) (\<lambda>measureArray.
            bind_comp (write_prop (Ref resultDataViewValues) (Index t) (Ref measureArray)) (\<lambda>u.
            bind_comp (read_prop (Ref newValues) (Index t)) (\<lambda>newValues_t.
              write_prop (Ref measureArray) (Name ''values'') newValues_t))))) 0"

definition derive_tail_h ::
  "nat \<Rightarrow> (string \<Rightarrow> number) \<Rightarrow> addr \<Rightarrow> addr \<Rightarrow> addr \<Rightarrow> addr \<Rightarrow>
   addr \<Rightarrow> addr \<Rightarrow> addr \<Rightarrow> hval comp" where
  "derive_tail_h fuel strnum dataView newcategoryValues newValues newObjects
       resultDataView resultDataViewValues resultDataViewCategories =
     bind_comp (read_prop (Ref resultDataView) (Name ''categories'')) (\<lambda>target.
     bind_comp (read_prop (Ref resultDataViewCategories) (Index 0)) (\<lambda>category0.
     bind_comp (inherit category0) (\<lambda>resultDataViewCategories0.
     bind_comp (write_prop target (Index 0) (Ref resultDataViewCategories0)) (\<lambda>u.
     bind_comp (write_prop (Ref resultDataViewCategories0) (Name ''values'')
                  (Ref newcategoryValues)) (\<lambda>u.
     bind_comp (read_prop (Ref resultDataViewCategories0) (Name ''objects'')) (\<lambda>inherited_objects.
     bind_comp (if truthy inherited_objects
                then write_prop (Ref resultDataViewCategories0) (Name ''objects'') (Ref newObjects)
                else ret ()) (\<lambda>u.
     bind_comp (set_measures_h fuel strnum dataView newValues resultDataViewValues) (\<lambda>u.
       ret (Ref resultDataView)))))))))"

definition derive_h ::
  "nat \<Rightarrow> (string \<Rightarrow> number) \<Rightarrow> addr \<Rightarrow> addr \<Rightarrow> addr \<Rightarrow> addr \<Rightarrow> hval comp" where
  "derive_h fuel strnum dataView newcategoryValues newValues newObjects =
     bind_comp (inherit (Ref dataView)) (\<lambda>resultDataView.
     bind_comp (read_prop (Ref resultDataView) (Name ''values'')) (\<lambda>inherited_values.
     bind_comp (inherit inherited_values) (\<lambda>resultDataViewValues.
     bind_comp (write_prop (Ref resultDataView) (Name ''values'') (Ref resultDataViewValues)) (\<lambda>u.
     bind_comp (read_prop (Ref dataView) (Name ''categories'')) (\<lambda>dataView_categories.
     bind_comp (inherit dataView_categories) (\<lambda>resultDataViewCategories.
     bind_comp (write_prop (Ref resultDataView) (Name ''categories'')
                  (Ref resultDataViewCategories)) (\<lambda>u.
       derive_tail_h fuel strnum dataView newcategoryValues newValues newObjects
         resultDataView resultDataViewValues resultDataViewCategories)))))))"

definition build_h ::
  "nat \<Rightarrow> (string \<Rightarrow> number) \<Rightarrow> addr \<Rightarrow> hval \<Rightarrow> hval \<Rightarrow> hval \<Rightarrow> hval \<Rightarrow>
   addr \<Rightarrow> addr \<Rightarrow> addr \<Rightarrow> hval comp" where
  "build_h fuel strnum dataView categoryValues categoryObjects mn mx
       newcategoryValues newValues newObjects =
     bind_comp (if \<not> typeof_number_h mn then read_prop categoryValues (Index 0) else ret mn) (\<lambda>mn.
     bind_comp (if \<not> typeof_number_h mx
                then bind_comp (read_prop categoryValues (Name ''length''))
                       (\<lambda>len. read_prop categoryValues (last_key len))
                else ret mx) (\<lambda>mx.
     if js_gt strnum (prim_of mn) (prim_of mx) then ret (Ref dataView) else
     bind_comp (init_newValues_h fuel strnum dataView newValues) (\<lambda>u.
     bind_comp (for_loop fuel strnum (read_prop categoryValues (Name ''length''))
                  (filter_body_h fuel strnum dataView categoryValues categoryObjects mn mx
                     newcategoryValues newValues newObjects) 0) (\<lambda>u.
       derive_h fuel strnum dataView newcategoryValues newValues newObjects))))"

definition transformDomain_h ::
  "nat \<Rightarrow> (heap \<Rightarrow> hval \<Rightarrow> bool) \<Rightarrow> (string \<Rightarrow> number) \<Rightarrow> addr \<Rightarrow> hval \<Rightarrow> hval \<Rightarrow> hval comp" where
  "transformDomain_h fuel isOrdinal strnum dataView mn mx =
     bind_comp (read_prop (Ref dataView) (Name ''categories'')) (\<lambda>dataView_categories.
     if \<not> truthy dataView_categories then ret (Ref dataView) else
     bind_comp (read_prop (Ref dataView) (Name ''values'')) (\<lambda>dataView_values.
     if \<not> truthy dataView_values then ret (Ref dataView) else
     bind_comp (read_prop dataView_categories (Name ''length'')) (\<lambda>categories_length.
     if categories_length = Prim (Number (Num 0)) then ret (Ref dataView) else
     bind_comp (read_prop dataView_values (Name ''length'')) (\<lambda>values_length.
     if values_length = Prim (Number (Num 0)) then ret (Ref dataView) else
     if \<not> typeof_number_h mn \<and> \<not> typeof_number_h mx then ret (Ref dataView) else
     bind_comp (read_prop dataView_categories (Index 0)) (\<lambda>category.
     bind_comp (if truthy category
                then bind_comp (read_prop category (Name ''source''))
                       (\<lambda>source. read_prop source (Name ''type''))
                else ret (Prim Null)) (\<lambda>categoryType.
     bind_comp (ask (\<lambda>h. isOrdinal h categoryType)) (\<lambda>ordinal.
     if ordinal then ret (Prim Undefined) else
     bind_comp (read_prop category (Name ''values'')) (\<lambda>categoryValues.
     bind_comp (read_prop category (Name ''objects'')) (\<lambda>categoryObjects.
     if \<not> truthy categoryValues \<or> \<not> truthy categoryObjects then ret (Ref dataView) else
     bind_comp new_array (\<lambda>newcategoryValues.
     bind_comp new_array (\<lambda>newValues.
     bind_comp new_array (\<lambda>newObjects.
       build_h fuel strnum dataView categoryValues categoryObjects mn mx
         newcategoryValues newValues newObjects))))))))))))"

text \<open>
  The input as the types of the host API describe it. \<open>is_array h a xs\<close>: the object
  at \<open>a\<close> is an array with the elements \<open>xs\<close> (fewer than \<open>2^32\<close>, as in every array):
  its \<open>length\<close> and its elements read as those of \<open>xs\<close>, and it has no other index.
  \<open>holds_view h dataView L\<close>: the object at \<open>dataView\<close> is a categorical data view with
  at least one category column and one value column, laid out as \<open>L\<close> says: the arrays
  \<open>categories\<close> and \<open>values\<close>, the first category column with its \<open>source\<close>, its
  \<open>values\<close> (primitive values) and its \<open>objects\<close>, and every value column with its
  \<open>values\<close>.
\<close>

definition is_array :: "heap \<Rightarrow> addr \<Rightarrow> hval list \<Rightarrow> bool" where
  "is_array h a xs =
     (length xs < 2 ^ 32 \<and>
      get h a (Name ''length'') = Prim (Number (Num (real (length xs)))) \<and>
      (\<forall>i. get h a (Index i) = (if i < length xs then xs ! i else Prim Undefined)) \<and>
      (\<forall>n. get h a (NumericName n) = Prim Undefined))"

record input_view =
  categories_at :: addr
  category_at :: addr
  other_categories :: "hval list"
  source_at :: addr
  category_values_at :: addr
  category_values :: "PrimitiveValue list"
  category_objects_at :: addr
  category_objects :: "hval list"
  columns_at :: addr
  column_at :: "addr list"
  column_values_at :: "addr list"
  column_values :: "hval list list"

definition holds_view :: "heap \<Rightarrow> addr \<Rightarrow> input_view \<Rightarrow> bool" where
  "holds_view h dataView L =
     (get h dataView (Name ''categories'') = Ref (categories_at L) \<and>
      is_array h (categories_at L) (Ref (category_at L) # other_categories L) \<and>
      get h (category_at L) (Name ''source'') = Ref (source_at L) \<and>
      get h (category_at L) (Name ''values'') = Ref (category_values_at L) \<and>
      is_array h (category_values_at L) (map Prim (category_values L)) \<and>
      get h (category_at L) (Name ''objects'') = Ref (category_objects_at L) \<and>
      is_array h (category_objects_at L) (category_objects L) \<and>
      get h dataView (Name ''values'') = Ref (columns_at L) \<and>
      is_array h (columns_at L) (map Ref (column_at L)) \<and>
      column_at L \<noteq> [] \<and>
      length (column_values_at L) = length (column_at L) \<and>
      length (column_values L) = length (column_at L) \<and>
      (\<forall>k < length (column_at L).
         get h (column_at L ! k) (Name ''values'') = Ref (column_values_at L ! k) \<and>
         is_array h (column_values_at L ! k) (column_values L ! k)))"

text \<open>
  Assertions for the proofs. \<open>keeps K m Q\<close>: started in a heap that satisfies \<open>K\<close>, \<open>m\<close>
  ends in one, whatever the outcome (also when the fuel runs out), and a returned value
  satisfies \<open>Q\<close>. \<open>ensures\<close> is the same with a condition on the value and the final heap.
\<close>

definition keeps :: "(heap \<Rightarrow> bool) \<Rightarrow> 'a comp \<Rightarrow> ('a \<Rightarrow> bool) \<Rightarrow> bool" where
  "keeps K m Q =
     (\<forall>h. K h \<longrightarrow>
        (case m h of
           (Ok x, h') \<Rightarrow> K h' \<and> Q x
         | (TypeError, h') \<Rightarrow> K h'
         | (Timeout, h') \<Rightarrow> K h'))"

text \<open>
  The invariants. \<open>frame_inv h0 nv h\<close>: the input heap \<open>h0\<close> is a prefix of \<open>h\<close>, so no
  input object has changed; no new object holds an input object under \<open>values\<close>,
  \<open>objects\<close> or \<open>categories\<close>; and the array \<open>newValues\<close> at \<open>nv\<close> holds new arrays only.
  \<open>result_inv\<close> describes the derived data view.
\<close>

definition special_keys :: "key set" where
  "special_keys = {Name ''values'', Name ''objects'', Name ''categories''}"

definition fresh_val :: "nat \<Rightarrow> addr \<Rightarrow> hval \<Rightarrow> bool" where
  "fresh_val n0 nv x = (case x of Prim p \<Rightarrow> True | Ref b \<Rightarrow> n0 \<le> b \<and> b \<noteq> nv)"

definition owned :: "nat \<Rightarrow> heap \<Rightarrow> bool" where
  "owned n0 h =
     (\<forall>a k b. n0 \<le> a \<and> a < length h \<and> k \<in> special_keys \<and> props (h ! a) k = Some (Ref b)
        \<longrightarrow> n0 \<le> b)"

definition inv_newValues :: "nat \<Rightarrow> addr \<Rightarrow> heap \<Rightarrow> bool" where
  "inv_newValues n0 nv h =
     (n0 \<le> nv \<and> nv < length h \<and> proto (h ! nv) = None \<and>
      (\<forall>k b. props (h ! nv) k = Some (Ref b) \<longrightarrow> n0 \<le> b \<and> b \<noteq> nv))"

definition frame_inv :: "heap \<Rightarrow> addr \<Rightarrow> heap \<Rightarrow> bool" where
  "frame_inv h0 nv h = (prefix h0 h \<and> owned (length h0) h \<and> inv_newValues (length h0) nv h)"

definition fresh_ref :: "nat \<Rightarrow> hval \<Rightarrow> bool" where
  "fresh_ref n0 x = (case x of Prim p \<Rightarrow> True | Ref b \<Rightarrow> n0 \<le> b)"

definition result_inv :: "addr \<Rightarrow> addr \<Rightarrow> addr \<Rightarrow> addr \<Rightarrow> heap \<Rightarrow> bool" where
  "result_inv res dataView rvs rcs h =
     (res < length h \<and> proto (h ! res) = Some dataView \<and>
      props (h ! res) = [Name ''values'' \<mapsto> Ref rvs, Name ''categories'' \<mapsto> Ref rcs])"

definition ensures :: "(heap \<Rightarrow> bool) \<Rightarrow> 'a comp \<Rightarrow> ('a \<Rightarrow> heap \<Rightarrow> bool) \<Rightarrow> bool" where
  "ensures K m R =
     (\<forall>h. K h \<longrightarrow>
        (case m h of
           (Ok x, h') \<Rightarrow> K h' \<and> R x h'
         | (TypeError, h') \<Rightarrow> K h'
         | (Timeout, h') \<Rightarrow> K h'))"

definition result_ok :: "heap \<Rightarrow> addr \<Rightarrow> hval \<Rightarrow> heap \<Rightarrow> bool" where
  "result_ok h0 dataView r h =
     (r = Ref dataView \<or> r = Prim Undefined \<or>
      (\<exists>res rvs rcs. r = Ref res \<and> length h0 \<le> res \<and> length h0 \<le> rvs \<and> length h0 \<le> rcs \<and>
         result_inv res dataView rvs rcs h))"

definition frame0 :: "heap \<Rightarrow> heap \<Rightarrow> bool" where
  "frame0 h0 h = (prefix h0 h \<and> owned (length h0) h)"

text \<open>
  The heaps of a run that filters. \<open>work_heap\<close>: the input heap followed by the three
  arrays \<open>newcategoryValues\<close>, \<open>newValues\<close> and \<open>newObjects\<close> and by the arrays that
  \<open>newValues\<close> holds, one per value column. \<open>derived_heap\<close>: then the derived data view,
  its \<open>values\<close> and \<open>categories\<close>, its first category column, and the value columns
  derived so far.
\<close>

definition work_heap :: "heap \<Rightarrow> hval list \<Rightarrow> hval list \<Rightarrow> hval list list \<Rightarrow> heap" where
  "work_heap h0 ncv nobj nvs =
     h0 @ [array_of ncv,
           array_of (map (\<lambda>k. Ref (length h0 + 3 + k)) [0 ..< length nvs]),
           array_of nobj]
        @ map array_of nvs"

definition derived_heap ::
  "heap \<Rightarrow> addr \<Rightarrow> input_view \<Rightarrow> hval list \<Rightarrow> hval list \<Rightarrow> hval list list \<Rightarrow> nat \<Rightarrow> heap" where
  "derived_heap h0 dataView L ncv nobj nvs t =
     work_heap h0 ncv nobj nvs @
     [\<lparr>proto = Some dataView,
       props = [Name ''values'' \<mapsto> Ref (length h0 + 3 + length nvs + 1),
                Name ''categories'' \<mapsto> Ref (length h0 + 3 + length nvs + 2)]\<rparr>,
      \<lparr>proto = Some (columns_at L),
       props = (\<lambda>key. case key of
                  Index j \<Rightarrow> if j < t then Some (Ref (length h0 + 3 + length nvs + 4 + j)) else None
                | _ \<Rightarrow> None)\<rparr>,
      \<lparr>proto = Some (categories_at L),
       props = [Index 0 \<mapsto> Ref (length h0 + 3 + length nvs + 3)]\<rparr>,
      \<lparr>proto = Some (category_at L),
       props = [Name ''values'' \<mapsto> Ref (length h0), Name ''objects'' \<mapsto> Ref (length h0 + 2)]\<rparr>] @
     map (\<lambda>j. \<lparr>proto = Some (column_at L ! j),
                props = [Name ''values'' \<mapsto> Ref (length h0 + 3 + j)]\<rparr>) [0 ..< t]"

text \<open>
  An input heap: the data view at address 0, with one category column (values 1, 2, 3)
  and one value column (10, 20, 30).
\<close>

definition example_heap :: heap where
  "example_heap =
     [\<lparr>proto = None, props = [Name ''categories'' \<mapsto> Ref 1, Name ''values'' \<mapsto> Ref 5]\<rparr>,
      array_of [Ref 2],
      \<lparr>proto = None,
       props = [Name ''source'' \<mapsto> Ref 3, Name ''values'' \<mapsto> Ref 4, Name ''objects'' \<mapsto> Ref 8]\<rparr>,
      \<lparr>proto = None, props = [Name ''type'' \<mapsto> Prim (Boolean False)]\<rparr>,
      array_of [Prim (Number (Num 1)), Prim (Number (Num 2)), Prim (Number (Num 3))],
      array_of [Ref 6],
      \<lparr>proto = None, props = [Name ''values'' \<mapsto> Ref 7]\<rparr>,
      array_of [Prim (Number (Num 10)), Prim (Number (Num 20)), Prim (Number (Num 30))],
      array_of [Prim Undefined, Prim Undefined, Prim Undefined]]"

definition example_isOrdinal_h :: "heap \<Rightarrow> hval \<Rightarrow> bool" where
  "example_isOrdinal_h h ty = (ty = Prim (Boolean True))"

text \<open>The layout of the data view in \<open>example_heap\<close>.\<close>

definition example_layout :: input_view where
  "example_layout =
     \<lparr>categories_at = 1, category_at = 2, other_categories = [], source_at = 3,
      category_values_at = 4,
      category_values = [Number (Num 1), Number (Num 2), Number (Num 3)],
      category_objects_at = 8,
      category_objects = [Prim Undefined, Prim Undefined, Prim Undefined],
      columns_at = 5, column_at = [6], column_values_at = [7],
      column_values = [[Prim (Number (Num 10)), Prim (Number (Num 20)), Prim (Number (Num 30))]]\<rparr>"

section \<open>Example inputs\<close>

text \<open>
  Concrete inputs for the instances below. The value type descriptor is reduced to
  one flag, whether the type is text, and text is what \<open>example_isOrdinal\<close> takes for
  ordinal; no string is numeric for \<open>example_strnum\<close>. \<open>example_view\<close> has two category
  columns, a numeric one with values 1, 2, 3 and a text column, and one value column.
\<close>

definition example_isOrdinal :: "bool option \<Rightarrow> bool" where
  "example_isOrdinal t = (t = Some True)"

definition example_strnum :: "string \<Rightarrow> number" where
  "example_strnum s = NaN"

definition example_category :: "(bool, unit, unit) DataViewCategoryColumn" where
  "example_category =
     \<lparr>source = \<lparr>type = Some False\<rparr>,
      DataViewCategoryColumn.values = Some [Number (Num 1), Number (Num 2), Number (Num 3)],
      objects = Some [None, Some (), None]\<rparr>"

definition example_text_category :: "(bool, unit, unit) DataViewCategoryColumn" where
  "example_text_category =
     \<lparr>source = \<lparr>type = Some True\<rparr>,
      DataViewCategoryColumn.values = Some [String ''a'', String ''b'', String ''c''],
      objects = None\<rparr>"

definition example_measure :: DataViewValueColumn where
  "example_measure = \<lparr>DataViewValueColumn.values = [Number (Num 10), Number (Num 20), Number (Num 30)]\<rparr>"

definition example_view :: "(bool, unit, unit, unit, unit) DataViewCategorical" where
  "example_view =
     \<lparr>categories = Some [Some example_category, Some example_text_category],
      values = Some [example_measure]\<rparr>"

text \<open>The same view without the metadata objects of its first category column.\<close>

definition example_view_no_objects :: "(bool, unit, unit, unit, unit) DataViewCategorical" where
  "example_view_no_objects =
     \<lparr>categories = Some [Some (example_category\<lparr>objects := None\<rparr>), Some example_text_category],
      values = Some [example_measure]\<rparr>"

text \<open>A view whose first category column is the text column.\<close>

definition example_view_ordinal :: "(bool, unit, unit, unit, unit) DataViewCategorical" where
  "example_view_ordinal =
     \<lparr>categories = Some [Some example_text_category],
      values = Some [example_measure]\<rparr>"

text \<open>
  A scene of one series with three columns, of category indices 0, 1 and 2, no style
  set and no transition scheduled; every element matches every selector.
\<close>

definition example_column :: "int \<Rightarrow> unit Element" where
  "example_column i =
     \<lparr>datum = \<lparr>categoryIndex = i, position = Num 1, valueAbsolute = Num 1\<rparr>,
      fill_opacity = None, transition_to = None\<rparr>"

definition example_scene :: "unit Element list list" where
  "example_scene = [[example_column 0, example_column 1, example_column 2]]"

definition example_matches :: "string \<Rightarrow> unit \<Rightarrow> bool" where
  "example_matches selector node = True"

section \<open>Properties of the numbers\<close>

lemma pow2_powr: "pow2 e = 2 powr (real_of_int e)"
  by (simp add: pow2_def powr_int)

lemma pow2_pos [simp]: "0 < pow2 e"
  by (simp add: pow2_powr)

lemma pow2_nonzero [simp]: "pow2 e \<noteq> 0"
  by (simp add: pow2_powr)

lemma pow2_nonneg [simp]: "0 \<le> pow2 e"
  by (simp add: pow2_powr)

lemma abs_pow2 [simp]: "\<bar>pow2 e\<bar> = pow2 e"
  by simp

lemma pow2_add: "pow2 (a + b) = pow2 a * pow2 b"
  by (simp add: pow2_powr powr_add)

lemma pow2_mono: "a \<le> b \<Longrightarrow> pow2 a \<le> pow2 b"
  by (simp add: pow2_powr)

lemma pow2_nat: "0 \<le> e \<Longrightarrow> pow2 e = 2 ^ nat e"
  by (simp add: pow2_def)

lemma binade_props:
  "e0 \<le> binade n e0 x \<and> binade n e0 x \<le> e0 + int n \<and>
   (binade n e0 x = e0 \<or> pow2 (binade n e0 x + 52) \<le> \<bar>x\<bar>) \<and>
   (binade n e0 x = e0 + int n \<or> \<bar>x\<bar> < pow2 (binade n e0 x + 53))"
proof (induction n arbitrary: e0)
  case 0
  then show ?case by simp
next
  case (Suc n)
  show ?case
  proof (cases "pow2 (e0 + 53) \<le> \<bar>x\<bar>")
    case True
    from Suc [of "e0 + 1"] have a: "e0 + 1 \<le> binade n (e0 + 1) x"
      and b: "binade n (e0 + 1) x \<le> e0 + 1 + int n"
      and c: "binade n (e0 + 1) x = e0 + 1 \<or> pow2 (binade n (e0 + 1) x + 52) \<le> \<bar>x\<bar>"
      and d: "binade n (e0 + 1) x = e0 + 1 + int n \<or> \<bar>x\<bar> < pow2 (binade n (e0 + 1) x + 53)"
      by blast+
    have c': "pow2 (binade n (e0 + 1) x + 52) \<le> \<bar>x\<bar>"
      using c True by (auto simp: add.commute add.left_commute)
    show ?thesis using True a b c' d by (auto simp: algebra_simps)
  next
    case False
    then show ?thesis by simp
  qed
qed

lemma ulp_exponent_props:
  "- 1074 \<le> ulp_exponent x \<and> ulp_exponent x \<le> 971 \<and>
   (ulp_exponent x = - 1074 \<or> pow2 (ulp_exponent x + 52) \<le> \<bar>x\<bar>) \<and>
   (ulp_exponent x = 971 \<or> \<bar>x\<bar> < pow2 (ulp_exponent x + 53))"
  using binade_props [of "- 1074" 2045 x] by (simp add: ulp_exponent_def)

lemma ulp_exponent_eq:
  assumes "- 1074 \<le> e" "e \<le> 971"
    and lo: "e = - 1074 \<or> pow2 (e + 52) \<le> \<bar>x\<bar>"
    and hi: "e = 971 \<or> \<bar>x\<bar> < pow2 (e + 53)"
  shows "ulp_exponent x = e"
proof -
  let ?u = "ulp_exponent x"
  note p = ulp_exponent_props [of x]
  have "\<not> ?u < e"
  proof
    assume l: "?u < e"
    then have "\<bar>x\<bar> < pow2 (?u + 53)" using p assms by auto
    also have "pow2 (?u + 53) \<le> pow2 (e + 52)" using l by (intro pow2_mono) simp
    also have "\<dots> \<le> \<bar>x\<bar>" using lo l p by auto
    finally show False by simp
  qed
  moreover have "\<not> e < ?u"
  proof
    assume l: "e < ?u"
    then have "\<bar>x\<bar> < pow2 (e + 53)" using p hi by auto
    also have "pow2 (e + 53) \<le> pow2 (?u + 52)" using l by (intro pow2_mono) simp
    also have "\<dots> \<le> \<bar>x\<bar>" using l p assms by auto
    finally show False by simp
  qed
  ultimately show ?thesis by simp
qed

lemma round_half_even_int [simp]: "round_half_even (of_int z) = z"
  by (simp add: round_half_even_def)

lemma round_half_even_le:
  assumes "y \<le> of_int z"
  shows "round_half_even y \<le> z"
proof -
  have f: "\<lfloor>y\<rfloor> \<le> z" using assms by (simp add: floor_le_iff)
  show ?thesis
  proof (cases "\<lfloor>y\<rfloor> = z")
    case True
    then have "y - of_int \<lfloor>y\<rfloor> \<le> 0" using assms by simp
    then show ?thesis using True by (simp add: round_half_even_def Let_def)
  next
    case False
    with f have "\<lfloor>y\<rfloor> + 1 \<le> z" by simp
    then show ?thesis using f by (auto simp: round_half_even_def Let_def)
  qed
qed

lemma round_half_even_ge:
  assumes "of_int z \<le> y"
  shows "z \<le> round_half_even y"
proof -
  have "z \<le> \<lfloor>y\<rfloor>" using assms by (simp add: le_floor_iff)
  then show ?thesis by (auto simp: round_half_even_def Let_def)
qed


lemma pow2_0 [simp]: "pow2 0 = 1"
  by (simp add: pow2_def)

lemma pow2_diff_int:
  assumes "e \<le> k"
  shows "pow2 k / pow2 e = of_int (2 ^ nat (k - e))"
proof -
  have "pow2 k = pow2 (k - e) * pow2 e" by (simp add: pow2_add [symmetric])
  moreover have "pow2 (k - e) = 2 ^ nat (k - e)" using assms by (simp add: pow2_nat)
  ultimately show ?thesis by simp
qed

lemma round_to_double_exact:
  assumes x: "x = of_int m * pow2 k" and k: "- 1074 \<le> k" and m: "\<bar>m\<bar> < 2 ^ 53"
    and fin: "\<bar>x\<bar> < 2 ^ 1024"
  shows "round_to_double x = Num x"
proof -
  let ?e = "ulp_exponent x"
  note p = ulp_exponent_props [of x]
  have ek: "?e \<le> k"
  proof (rule ccontr)
    assume "\<not> ?e \<le> k"
    then have l: "k < ?e" by simp
    then have "pow2 (?e + 52) \<le> \<bar>x\<bar>" using p k by auto
    also have "\<bar>x\<bar> = of_int \<bar>m\<bar> * pow2 k" by (simp add: x abs_mult)
    also have "\<dots> < 2 ^ 53 * pow2 k"
    proof -
      have "(of_int \<bar>m\<bar> :: real) < of_int (2 ^ 53)" using m by (simp only: of_int_less_iff)
      then show ?thesis by simp
    qed
    also have "\<dots> = pow2 (k + 53)" by (simp add: pow2_add pow2_nat)
    also have "\<dots> \<le> pow2 (?e + 52)" using l by (intro pow2_mono) simp
    finally show False by simp
  qed
  have "x / pow2 ?e = of_int m * (pow2 k / pow2 ?e)" by (simp add: x)
  also have "\<dots> = of_int (m * 2 ^ nat (k - ?e))" by (simp add: pow2_diff_int [OF ek])
  finally have q: "x / pow2 ?e = of_int (m * 2 ^ nat (k - ?e))" .
  have r: "of_int (round_half_even (x / pow2 ?e)) * pow2 ?e = x"
    unfolding q round_half_even_int unfolding q [symmetric] by simp
  have "\<not> 2 ^ 1024 \<le> x" "\<not> x \<le> - (2 ^ 1024)"
    using fin unfolding abs_less_iff by (simp_all only: not_le minus_less_iff)
  then show ?thesis by (simp only: round_to_double_def Let_def r if_False)
qed

lemma round_to_double_int:
  assumes "\<bar>n\<bar> < 2 ^ 53"
  shows "round_to_double (of_int n) = Num (of_int n)"
proof (rule round_to_double_exact [where m = n and k = 0])
  show "real_of_int n = real_of_int n * pow2 0" by simp
  show "- 1074 \<le> (0 :: int)" by simp
  show "\<bar>n\<bar> < 2 ^ 53" by fact
  have "\<bar>real_of_int n\<bar> = of_int \<bar>n\<bar>" by simp
  also have "\<dots> < of_int (2 ^ 53)" using assms by (simp only: of_int_less_iff)
  also have "\<dots> < (2 :: real) ^ 1024" by simp
  finally show "\<bar>real_of_int n\<bar> < 2 ^ 1024" .
qed

lemma round_to_double_numeral [simp]:
  "numeral k < (2 ^ 53 :: int) \<Longrightarrow> round_to_double (numeral k) = Num (numeral k)"
  "numeral k < (2 ^ 53 :: int) \<Longrightarrow> round_to_double (- numeral k) = Num (- numeral k)"
  "round_to_double 0 = Num 0"
  "round_to_double 1 = Num 1"
  using round_to_double_int [of "numeral k"] round_to_double_int [of "- numeral k"]
    round_to_double_int [of 0] round_to_double_int [of 1]
  by simp_all

text \<open>Rounding in a known binade.\<close>

lemma round_to_double_binade:
  assumes "- 1074 \<le> e" "e \<le> 971"
    and "e = - 1074 \<or> pow2 (e + 52) \<le> \<bar>x\<bar>"
    and "e = 971 \<or> \<bar>x\<bar> < pow2 (e + 53)"
  shows "round_to_double x =
     (let r = of_int (round_half_even (x / pow2 e)) * pow2 e
      in if 2 ^ 1024 \<le> r then PosInf else if r \<le> - (2 ^ 1024) then NegInf else Num r)"
  by (simp only: round_to_double_def ulp_exponent_eq [OF assms] Let_def)

lemma round_big: "round_to_double 9999999999999999 = Num 10000000000000000"
proof -
  have "round_to_double 9999999999999999 =
     (let r = of_int (round_half_even (9999999999999999 / pow2 1)) * pow2 1
      in if 2 ^ 1024 \<le> r then PosInf else if r \<le> - (2 ^ 1024) then NegInf else Num r)"
    by (rule round_to_double_binade) (simp_all add: pow2_def)
  moreover have "round_half_even (9999999999999999 / 2) = 5000000000000000"
    by (simp add: round_half_even_def Let_def)
  ultimately show ?thesis by (simp add: pow2_def)
qed

text \<open>Rounding never crosses a double.\<close>

lemma round_to_double_le:
  assumes ta: "t \<le> a" and da: "round_to_double a = Num a"
  shows "le_number (round_to_double t) (Num a)"
proof -
  let ?ea = "ulp_exponent a" and ?et = "ulp_exponent t"
  note pa = ulp_exponent_props [of a] and pt = ulp_exponent_props [of t]
  define ma where "ma = round_half_even (a / pow2 ?ea)"
  define mt where "mt = round_half_even (t / pow2 ?et)"
  from da have a: "of_int ma * pow2 ?ea = a" and afin: "of_int ma * pow2 ?ea < 2 ^ 1024"
    by (auto simp: round_to_double_def Let_def ma_def split: if_splits)
  have abound: "\<bar>a\<bar> < pow2 (?ea + 53)"
  proof (cases "?ea = 971")
    case True
    have "- (2 ^ 1024) < a" using da
      by (auto simp: round_to_double_def Let_def ma_def split: if_splits)
    moreover have "a < 2 ^ 1024" using a afin by simp
    ultimately show ?thesis using True by (simp add: pow2_def)
  next
    case False
    then show ?thesis using pa by simp
  qed
  have le: "of_int mt * pow2 ?et \<le> a"
  proof (cases "?et \<le> ?ea")
    case True
    have "a / pow2 ?et = of_int ma * (pow2 ?ea / pow2 ?et)" using a by (simp add: field_simps)
    also have "\<dots> = of_int (ma * 2 ^ nat (?ea - ?et))" by (simp add: pow2_diff_int [OF True])
    finally have ai: "a / pow2 ?et = of_int (ma * 2 ^ nat (?ea - ?et))" .
    have "t / pow2 ?et \<le> a / pow2 ?et" using ta by (intro divide_right_mono) simp_all
    then have "mt \<le> ma * 2 ^ nat (?ea - ?et)"
      unfolding ai mt_def by (rule round_half_even_le)
    then have "real_of_int mt \<le> a / pow2 ?et" unfolding ai by (simp only: of_int_le_iff)
    then show ?thesis by (simp add: field_simps)
  next
    case False
    then have l: "?ea < ?et" by simp
    then have lo: "pow2 (?et + 52) \<le> \<bar>t\<bar>" using pt pa by auto
    have "\<bar>a\<bar> < pow2 (?ea + 53)" by (rule abound)
    also have "\<dots> \<le> pow2 (?et + 52)" using l by (intro pow2_mono) simp
    finally have ab: "\<bar>a\<bar> < pow2 (?et + 52)" .
    with lo ta have tneg: "t \<le> - pow2 (?et + 52)" by linarith
    have "pow2 (?et + 52) / pow2 ?et = of_int (2 ^ nat 52)"
      using pow2_diff_int [of ?et "?et + 52"] by simp
    then have bq: "pow2 (?et + 52) / pow2 ?et = of_int (2 ^ 52)" by simp
    have "t / pow2 ?et \<le> - (pow2 (?et + 52) / pow2 ?et)"
      using tneg by (simp add: field_simps)
    then have "t / pow2 ?et \<le> of_int (- (2 ^ 52))" unfolding bq by simp
    then have "mt \<le> - (2 ^ 52)" unfolding mt_def by (rule round_half_even_le)
    then have "real_of_int mt \<le> of_int (- (2 ^ 52))" by (simp only: of_int_le_iff)
    then have "real_of_int mt * pow2 ?et \<le> of_int (- (2 ^ 52)) * pow2 ?et"
      by (intro mult_right_mono) simp_all
    also have "\<dots> = - pow2 (?et + 52)" by (simp add: pow2_add pow2_nat)
    also have "\<dots> < a" using ab by linarith
    finally show ?thesis by simp
  qed
  have "a < 2 ^ 1024" using a afin by simp
  with le show ?thesis
    by (simp add: round_to_double_def Let_def mt_def [symmetric])
qed


section \<open>Properties of the domain computation\<close>

lemma le_number_refl: "a \<noteq> NaN \<Longrightarrow> le_number a a"
  by (cases a) auto

lemma le_number_total: "a \<noteq> NaN \<Longrightarrow> b \<noteq> NaN \<Longrightarrow> le_number a b \<or> le_number b a"
  by (cases a; cases b) auto

lemma le_number_trans: "le_number a b \<Longrightarrow> le_number b c \<Longrightarrow> le_number a c"
  by (cases a; cases b; cases c) auto

lemma le_number_antisym: "le_number a b \<Longrightarrow> le_number b a \<Longrightarrow> a = b"
  by (cases a; cases b) auto

lemma lt_number_trans: "lt_number a b \<Longrightarrow> lt_number b c \<Longrightarrow> lt_number a c"
  by (cases a; cases b; cases c) auto

lemma le_lt_number_trans: "le_number a b \<Longrightarrow> lt_number b c \<Longrightarrow> lt_number a c"
  by (cases a; cases b; cases c) auto

lemma lt_le_number_trans: "lt_number a b \<Longrightarrow> le_number b c \<Longrightarrow> lt_number a c"
  by (cases a; cases b; cases c) auto

lemma lt_number_irrefl [simp]: "\<not> lt_number a a"
  by (cases a) auto

lemma lt_number_NaN [simp]: "\<not> lt_number a NaN"
  by (cases a) auto

lemma le_number_NaN [simp]: "\<not> le_number a NaN"
  by (cases a) auto

lemma lt_imp_le_number: "lt_number a b \<Longrightarrow> le_number a b"
  by (cases a; cases b) auto

lemma not_lt_number: "a \<noteq> NaN \<Longrightarrow> b \<noteq> NaN \<Longrightarrow> \<not> lt_number a b \<longleftrightarrow> le_number b a"
  by (cases a; cases b) auto

lemma not_le_number: "a \<noteq> NaN \<Longrightarrow> b \<noteq> NaN \<Longrightarrow> \<not> le_number a b \<longleftrightarrow> lt_number b a"
  by (cases a; cases b) auto

lemma le_number_defined: "le_number a b \<Longrightarrow> a \<noteq> NaN \<and> b \<noteq> NaN"
  by (cases a; cases b) auto

lemma lt_number_defined: "lt_number a b \<Longrightarrow> a \<noteq> NaN \<and> b \<noteq> NaN"
  by (cases a; cases b) auto

lemma ge_number_self: "ge_number b b \<longleftrightarrow> b \<noteq> NaN"
  by (cases b) (auto simp: ge_number_def)

lemma comparable_append: "comparable (us @ vs) = comparable us @ comparable vs"
  by (induction us rule: comparable.induct) auto

lemma comparable_concat: "comparable (concat vss) = concat (map comparable vss)"
  by (induction vss) (auto simp: comparable_append)

lemma set_comparable: "set (comparable vs) = {n. Some n \<in> set vs \<and> n \<noteq> NaN}"
  by (induction vs rule: comparable.induct) auto

lemma comparable_defined: "n \<in> set (comparable vs) \<Longrightarrow> n \<noteq> NaN"
  by (simp add: set_comparable)

lemma comparable_Some: "b \<noteq> NaN \<Longrightarrow> comparable (Some b # vs) = b # comparable vs"
  by (cases b) auto

lemma exists_least:
  assumes "ns \<noteq> []" "\<forall>n \<in> set ns. n \<noteq> NaN"
  shows "\<exists>m \<in> set ns. \<forall>n \<in> set ns. le_number m n"
  using assms
proof (induction ns)
  case Nil
  then show ?case by simp
next
  case (Cons a ns)
  show ?case
  proof (cases "ns = []")
    case True
    then show ?thesis using Cons.prems by (auto intro: le_number_refl)
  next
    case False
    with Cons obtain m where m: "m \<in> set ns" "\<forall>n \<in> set ns. le_number m n" by auto
    have d: "a \<noteq> NaN" "m \<noteq> NaN" using Cons.prems m by auto
    show ?thesis
    proof (cases "le_number a m")
      case True
      then have "\<forall>n \<in> set (a # ns). le_number a n"
        using m d by (auto intro: le_number_trans le_number_refl)
      then show ?thesis by auto
    next
      case False
      then have "le_number m a" using le_number_total [OF d] by auto
      then have "\<forall>n \<in> set (a # ns). le_number m n" using m by auto
      then show ?thesis using m by auto
    qed
  qed
qed

lemma exists_greatest:
  assumes "ns \<noteq> []" "\<forall>n \<in> set ns. n \<noteq> NaN"
  shows "\<exists>m \<in> set ns. \<forall>n \<in> set ns. le_number n m"
  using assms
proof (induction ns)
  case Nil
  then show ?case by simp
next
  case (Cons a ns)
  show ?case
  proof (cases "ns = []")
    case True
    then show ?thesis using Cons.prems by (auto intro: le_number_refl)
  next
    case False
    with Cons obtain m where m: "m \<in> set ns" "\<forall>n \<in> set ns. le_number n m" by auto
    have d: "a \<noteq> NaN" "m \<noteq> NaN" using Cons.prems m by auto
    show ?thesis
    proof (cases "le_number m a")
      case True
      then have "\<forall>n \<in> set (a # ns). le_number n a"
        using m d by (auto intro: le_number_trans le_number_refl)
      then show ?thesis by auto
    next
      case False
      then have "le_number a m" using le_number_total [OF d] by auto
      then have "\<forall>n \<in> set (a # ns). le_number n m" using m by auto
      then show ?thesis using m by auto
    qed
  qed
qed

lemma minimum_of_SomeI:
  assumes m: "m \<in> set ns" and le: "\<forall>n \<in> set ns. le_number m n"
  shows "minimum_of ns = Some m"
proof -
  let ?P = "\<lambda>m. list_all (\<lambda>n. le_number m n) ns"
  have "?P m" using le by (simp add: list_all_iff)
  with m have "find ?P ns \<noteq> None" by (auto simp: find_None_iff)
  then obtain y where y: "find ?P ns = Some y" by auto
  then have "?P y" "y \<in> set ns" by (auto simp: find_Some_iff)
  then have "le_number y m" using m by (simp add: list_all_iff)
  moreover have "le_number m y" using le \<open>y \<in> set ns\<close> by simp
  ultimately have "y = m" by (rule le_number_antisym)
  with y show ?thesis by (simp add: minimum_of_def)
qed

lemma minimum_of_SomeD:
  assumes "minimum_of ns = Some m"
  shows "m \<in> set ns \<and> (\<forall>n \<in> set ns. le_number m n)"
  using assms by (auto simp: minimum_of_def find_Some_iff list_all_iff)

lemma minimum_of_Nil [simp]: "minimum_of [] = None"
  by (simp add: minimum_of_def)

lemma minimum_of_None:
  assumes "\<forall>n \<in> set ns. n \<noteq> NaN"
  shows "minimum_of ns = None \<longleftrightarrow> ns = []"
proof
  assume n: "minimum_of ns = None"
  show "ns = []"
  proof (rule ccontr)
    assume "ns \<noteq> []"
    from exists_least [OF this assms] obtain m where "m \<in> set ns" "\<forall>n \<in> set ns. le_number m n"
      by auto
    then have "minimum_of ns = Some m" by (rule minimum_of_SomeI)
    with n show False by simp
  qed
qed simp

lemma maximum_of_SomeI:
  assumes m: "m \<in> set ns" and le: "\<forall>n \<in> set ns. le_number n m"
  shows "maximum_of ns = Some m"
proof -
  let ?P = "\<lambda>m. list_all (\<lambda>n. le_number n m) ns"
  have "?P m" using le by (simp add: list_all_iff)
  with m have "find ?P ns \<noteq> None" by (auto simp: find_None_iff)
  then obtain y where y: "find ?P ns = Some y" by auto
  then have "?P y" "y \<in> set ns" by (auto simp: find_Some_iff)
  then have "le_number m y" using m by (simp add: list_all_iff)
  moreover have "le_number y m" using le \<open>y \<in> set ns\<close> by simp
  ultimately have "y = m" by (intro le_number_antisym)
  with y show ?thesis by (simp add: maximum_of_def)
qed

lemma maximum_of_SomeD:
  assumes "maximum_of ns = Some m"
  shows "m \<in> set ns \<and> (\<forall>n \<in> set ns. le_number n m)"
  using assms by (auto simp: maximum_of_def find_Some_iff list_all_iff)

lemma maximum_of_Nil [simp]: "maximum_of [] = None"
  by (simp add: maximum_of_def)

lemma maximum_of_None:
  assumes "\<forall>n \<in> set ns. n \<noteq> NaN"
  shows "maximum_of ns = None \<longleftrightarrow> ns = []"
proof
  assume n: "maximum_of ns = None"
  show "ns = []"
  proof (rule ccontr)
    assume "ns \<noteq> []"
    from exists_greatest [OF this assms] obtain m where "m \<in> set ns" "\<forall>n \<in> set ns. le_number n m"
      by auto
    then have "maximum_of ns = Some m" by (rule maximum_of_SomeI)
    with n show False by simp
  qed
qed simp

lemma d3_min_from_least:
  assumes "a \<noteq> NaN"
  shows "d3_min_from a xs f \<in> set (a # comparable (map f xs)) \<and>
         (\<forall>n \<in> set (a # comparable (map f xs)). le_number (d3_min_from a xs f) n)"
  using assms
proof (induction xs arbitrary: a)
  case Nil
  then show ?case by (simp add: le_number_refl)
next
  case (Cons x xs)
  show ?case
  proof (cases "f x")
    case None
    then show ?thesis using Cons by simp
  next
    case (Some b)
    show ?thesis
    proof (cases "b = NaN")
      case True
      then show ?thesis using Some Cons by (simp add: gt_number_def)
    next
      case False
      note c = comparable_Some [OF False]
      show ?thesis
      proof (cases "lt_number b a")
        case True
        from Cons.IH [OF False] have
          i: "d3_min_from b xs f \<in> set (b # comparable (map f xs))"
          and l: "\<forall>n \<in> set (b # comparable (map f xs)). le_number (d3_min_from b xs f) n"
          by blast+
        from l have "le_number (d3_min_from b xs f) b" by simp
        then have "le_number (d3_min_from b xs f) a"
          using True by (blast intro: le_number_trans lt_imp_le_number)
        then show ?thesis using Some True i l by (simp add: gt_number_def c)
      next
        case nlt: False
        from Cons.IH [OF Cons.prems] have
          i: "d3_min_from a xs f \<in> set (a # comparable (map f xs))"
          and l: "\<forall>n \<in> set (a # comparable (map f xs)). le_number (d3_min_from a xs f) n"
          by blast+
        from nlt have "le_number a b" using not_lt_number [OF False Cons.prems] by simp
        moreover from l have "le_number (d3_min_from a xs f) a" by simp
        ultimately have "le_number (d3_min_from a xs f) b" by (blast intro: le_number_trans)
        then show ?thesis using Some nlt i l by (auto simp: gt_number_def c)
      qed
    qed
  qed
qed

lemma d3_min_eq: "d3_min xs f = minimum_of (comparable (map f xs))"
proof (induction xs)
  case Nil
  then show ?case by simp
next
  case (Cons x xs)
  show ?case
  proof (cases "f x")
    case None
    then show ?thesis using Cons by simp
  next
    case (Some b)
    show ?thesis
    proof (cases "b = NaN")
      case True
      then show ?thesis using Some Cons by (simp add: ge_number_self)
    next
      case False
      from d3_min_from_least [OF False, of xs f]
      have "minimum_of (b # comparable (map f xs)) = Some (d3_min_from b xs f)"
        by (intro minimum_of_SomeI) blast+
      then show ?thesis using Some False by (simp add: ge_number_self comparable_Some)
    qed
  qed
qed

lemma d3_max_from_greatest:
  assumes "a \<noteq> NaN"
  shows "d3_max_from a xs f \<in> set (a # comparable (map f xs)) \<and>
         (\<forall>n \<in> set (a # comparable (map f xs)). le_number n (d3_max_from a xs f))"
  using assms
proof (induction xs arbitrary: a)
  case Nil
  then show ?case by (simp add: le_number_refl)
next
  case (Cons x xs)
  show ?case
  proof (cases "f x")
    case None
    then show ?thesis using Cons by simp
  next
    case (Some b)
    show ?thesis
    proof (cases "b = NaN")
      case True
      then show ?thesis using Some Cons by simp
    next
      case False
      note c = comparable_Some [OF False]
      show ?thesis
      proof (cases "lt_number a b")
        case True
        from Cons.IH [OF False] have
          i: "d3_max_from b xs f \<in> set (b # comparable (map f xs))"
          and l: "\<forall>n \<in> set (b # comparable (map f xs)). le_number n (d3_max_from b xs f)"
          by blast+
        from l have "le_number b (d3_max_from b xs f)" by simp
        then have "le_number a (d3_max_from b xs f)"
          using True by (blast intro: le_number_trans lt_imp_le_number)
        then show ?thesis using Some True i l by (simp add: c)
      next
        case nlt: False
        from Cons.IH [OF Cons.prems] have
          i: "d3_max_from a xs f \<in> set (a # comparable (map f xs))"
          and l: "\<forall>n \<in> set (a # comparable (map f xs)). le_number n (d3_max_from a xs f)"
          by blast+
        from nlt have "le_number b a" using not_lt_number [OF Cons.prems False] by simp
        moreover from l have "le_number a (d3_max_from a xs f)" by simp
        ultimately have "le_number b (d3_max_from a xs f)" by (blast intro: le_number_trans)
        then show ?thesis using Some nlt i l by (auto simp: c)
      qed
    qed
  qed
qed

lemma d3_max_eq: "d3_max xs f = maximum_of (comparable (map f xs))"
proof (induction xs)
  case Nil
  then show ?case by simp
next
  case (Cons x xs)
  show ?case
  proof (cases "f x")
    case None
    then show ?thesis using Cons by simp
  next
    case (Some b)
    show ?thesis
    proof (cases "b = NaN")
      case True
      then show ?thesis using Some Cons by (simp add: ge_number_self)
    next
      case False
      from d3_max_from_greatest [OF False, of xs f]
      have "maximum_of (b # comparable (map f xs)) = Some (d3_max_from b xs f)"
        by (intro maximum_of_SomeI) blast+
      then show ?thesis using Some False by (simp add: ge_number_self comparable_Some)
    qed
  qed
qed

text \<open>The minimum of the minima of the parts is the minimum of the whole.\<close>

lemma minimum_of_nested:
  assumes d: "\<forall>s \<in> set ss. \<forall>n \<in> set (h s). n \<noteq> NaN"
  shows "minimum_of (comparable (map (\<lambda>s. minimum_of (h s)) ss)) = minimum_of (concat (map h ss))"
proof -
  let ?inner = "comparable (map (\<lambda>s. minimum_of (h s)) ss)"
  let ?all = "concat (map h ss)"
  have dall: "\<forall>n \<in> set ?all. n \<noteq> NaN" using d by auto
  have inner_sub: "n \<in> set ?all" if "n \<in> set ?inner" for n
  proof -
    from that obtain s where "s \<in> set ss" "minimum_of (h s) = Some n"
      by (auto simp: set_comparable)
    then show ?thesis using minimum_of_SomeD [of "h s" n] by auto
  qed
  show ?thesis
  proof (cases "?all = []")
    case True
    then have "?inner = []" using inner_sub by (cases ?inner) force+
    with True show ?thesis by (simp only: minimum_of_Nil)
  next
    case False
    from exists_least [OF False dall] obtain m where
      m: "m \<in> set ?all" and le: "\<forall>n \<in> set ?all. le_number m n" by auto
    from m obtain s where s: "s \<in> set ss" "m \<in> set (h s)" by auto
    have ds: "\<forall>n \<in> set (h s). n \<noteq> NaN" using d s by auto
    have "h s \<noteq> []" using s by auto
    then have "minimum_of (h s) \<noteq> None" using minimum_of_None [OF ds] by simp
    then obtain m' where m': "minimum_of (h s) = Some m'" by auto
    from minimum_of_SomeD [OF m'] s have "m' \<in> set (h s)" "le_number m' m" by auto
    moreover have "le_number m m'" using le s \<open>m' \<in> set (h s)\<close> by auto
    ultimately have "m' = m" by (intro le_number_antisym)
    have mnan: "m \<noteq> NaN" using dall m by auto
    have "m \<in> set ?inner" using s m' \<open>m' = m\<close> mnan by (force simp: set_comparable)
    moreover have "\<forall>n \<in> set ?inner. le_number m n" using le inner_sub by blast
    ultimately have "minimum_of ?inner = Some m" by (rule minimum_of_SomeI)
    moreover have "minimum_of ?all = Some m" using m le by (rule minimum_of_SomeI)
    ultimately show ?thesis by simp
  qed
qed

lemma maximum_of_nested:
  assumes d: "\<forall>s \<in> set ss. \<forall>n \<in> set (h s). n \<noteq> NaN"
  shows "maximum_of (comparable (map (\<lambda>s. maximum_of (h s)) ss)) = maximum_of (concat (map h ss))"
proof -
  let ?inner = "comparable (map (\<lambda>s. maximum_of (h s)) ss)"
  let ?all = "concat (map h ss)"
  have dall: "\<forall>n \<in> set ?all. n \<noteq> NaN" using d by auto
  have inner_sub: "n \<in> set ?all" if "n \<in> set ?inner" for n
  proof -
    from that obtain s where "s \<in> set ss" "maximum_of (h s) = Some n"
      by (auto simp: set_comparable)
    then show ?thesis using maximum_of_SomeD [of "h s" n] by auto
  qed
  show ?thesis
  proof (cases "?all = []")
    case True
    then have "?inner = []" using inner_sub by (cases ?inner) force+
    with True show ?thesis by (simp only: maximum_of_Nil)
  next
    case False
    from exists_greatest [OF False dall] obtain m where
      m: "m \<in> set ?all" and le: "\<forall>n \<in> set ?all. le_number n m" by auto
    from m obtain s where s: "s \<in> set ss" "m \<in> set (h s)" by auto
    have ds: "\<forall>n \<in> set (h s). n \<noteq> NaN" using d s by auto
    have "h s \<noteq> []" using s by auto
    then have "maximum_of (h s) \<noteq> None" using maximum_of_None [OF ds] by simp
    then obtain m' where m': "maximum_of (h s) = Some m'" by auto
    from maximum_of_SomeD [OF m'] s have "m' \<in> set (h s)" "le_number m m'" by auto
    moreover have "le_number m' m" using le s \<open>m' \<in> set (h s)\<close> by auto
    ultimately have "m' = m" by (intro le_number_antisym)
    have mnan: "m \<noteq> NaN" using dall m by auto
    have "m \<in> set ?inner" using s m' \<open>m' = m\<close> mnan by (force simp: set_comparable)
    moreover have "\<forall>n \<in> set ?inner. le_number n m" using le inner_sub by blast
    ultimately have "maximum_of ?inner = Some m" by (rule maximum_of_SomeI)
    moreover have "maximum_of ?all = Some m" using m le by (rule maximum_of_SomeI)
    ultimately show ?thesis by simp
  qed
qed

lemma calc_min:
  "d3_min ss (\<lambda>series. d3_min (data series) g) =
   minimum_of (comparable (map g (concat (map data ss))))"
proof -
  have "d3_min ss (\<lambda>series. d3_min (data series) g) =
        minimum_of (comparable (map (\<lambda>s. minimum_of (comparable (map g (data s)))) ss))"
    by (simp add: d3_min_eq)
  also have "\<dots> = minimum_of (concat (map (\<lambda>s. comparable (map g (data s))) ss))"
    by (rule minimum_of_nested) (simp add: comparable_defined)
  also have "concat (map (\<lambda>s. comparable (map g (data s))) ss) =
             comparable (map g (concat (map data ss)))"
    by (simp add: map_concat comparable_concat comp_def)
  finally show ?thesis .
qed

lemma calc_max:
  "d3_max ss (\<lambda>series. d3_max (data series) g) =
   maximum_of (comparable (map g (concat (map data ss))))"
proof -
  have "d3_max ss (\<lambda>series. d3_max (data series) g) =
        maximum_of (comparable (map (\<lambda>s. maximum_of (comparable (map g (data s)))) ss))"
    by (simp add: d3_max_eq)
  also have "\<dots> = maximum_of (concat (map (\<lambda>s. comparable (map g (data s))) ss))"
    by (rule maximum_of_nested) (simp add: comparable_defined)
  also have "concat (map (\<lambda>s. comparable (map g (data s))) ss) =
             comparable (map g (concat (map data ss)))"
    by (simp add: map_concat comparable_concat comp_def)
  finally show ?thesis .
qed

text \<open>
  C2: for an empty series collection \<open>calcValueDomain\<close> returns exactly
  \<open>{min: 0, max: 10}\<close>; for a non-empty collection, with \<open>is100pct\<close> false, \<open>min\<close> is the
  minimum over all data points of \<open>position - valueAbsolute\<close>, the difference being the
  double that the program computes, and \<open>max\<close> the maximum over all data points of
  \<open>position\<close> (over the comparable ones; \<open>undefined\<close> when there is no such data point).
\<close>

theorem calcValueDomain_range:
  "calcValueDomain rnd ([] :: ('p, 's) MekkoChartSeries_scheme list) is100pct =
     \<lparr>min_r = Some (Num 0), max_r = Some (Num 10)\<rparr> \<and>
   ((series_list :: ('p, 's) MekkoChartSeries_scheme list) \<noteq> [] \<longrightarrow>
    calcValueDomain rnd series_list False =
      \<lparr>min_r = minimum_of (comparable (map (\<lambda>p. Some (sub_number (position p) (valueAbsolute p)))
                                        (concat (map data series_list)))),
       max_r = maximum_of (comparable (map (\<lambda>p. Some (position p))
                                        (concat (map data series_list))))\<rparr>)"
  by (simp add: calcValueDomain_def DefaultNumberRange_def calc_min calc_max)

theorem calcValueDomain_range_witness:
  "[\<lparr>data = [\<lparr>categoryIndex = 0, position = Num 7, valueAbsolute = Num 3\<rparr>,
             \<lparr>categoryIndex = 1, position = Num 2, valueAbsolute = Num 1\<rparr>]\<rparr>] \<noteq> [] \<and>
   calcValueDomain (\<lambda>v p. v)
     [\<lparr>data = [\<lparr>categoryIndex = 0, position = Num 7, valueAbsolute = Num 3\<rparr>,
               \<lparr>categoryIndex = 1, position = Num 2, valueAbsolute = Num 1\<rparr>]\<rparr>] False
   = \<lparr>min_r = Some (Num 1), max_r = Some (Num 7)\<rparr>"
  using calcValueDomain_range [of "\<lambda>v p. v" True
     "[\<lparr>data = [\<lparr>categoryIndex = 0, position = Num 7, valueAbsolute = Num 3\<rparr>,
               \<lparr>categoryIndex = 1, position = Num 2, valueAbsolute = Num 1\<rparr>]\<rparr>]"]
  by (simp add: minimum_of_def maximum_of_def)

text \<open>
  On doubles, subtracting a value that is not negative does not increase a number; the
  one exception is \<open>Infinity - Infinity\<close>, which is \<open>NaN\<close>.
\<close>

lemma difference_le_position:
  assumes d: "is_double a" and n: "a \<noteq> NaN" and v: "le_number (Num 0) v"
    and i: "\<not> (a = PosInf \<and> v = PosInf)"
  shows "le_number (sub_number a v) a"
proof (cases a)
  case (Num x)
  then have fx: "round_to_double x = Num x" using d by (simp add: is_double_def finite_double_def)
  show ?thesis
  proof (cases v)
    case vy: (Num y)
    then have "x - y \<le> x" using v by simp
    from round_to_double_le [OF this fx] show ?thesis using Num vy by simp
  qed (use Num v in auto)
qed (use n v i in \<open>cases v; auto\<close>)+

text \<open>
  C4, as the code has it: when some data point has a \<open>position\<close> that is a number other
  than \<open>NaN\<close> and a \<open>valueAbsolute >= 0\<close>, the two not both \<open>Infinity\<close>, the returned range
  has \<open>min <= max\<close> (with \<open>is100pct\<close>, for every monotone \<open>roundToPrecision\<close>).
\<close>

theorem calcValueDomain_min_le_max:
  assumes pt: "p \<in> set (concat (map data series_list))"
    and pos: "is_double (position p) \<and> position p \<noteq> NaN"
    and va: "le_number (Num 0) (valueAbsolute p)"
    and inf: "\<not> (position p = PosInf \<and> valueAbsolute p = PosInf)"
    and rnd: "is100pct \<longrightarrow> (\<forall>x y. le_number x y \<longrightarrow>
               le_number (to_number (rnd (Some x) PctRoundingError))
                         (to_number (rnd (Some y) PctRoundingError)))"
  shows "le_number (to_number (min_r (calcValueDomain rnd series_list is100pct)))
                   (to_number (max_r (calcValueDomain rnd series_list is100pct)))"
proof -
  let ?pts = "concat (map data series_list)"
  let ?d = "sub_number (position p) (valueAbsolute p)"
  let ?lo = "comparable (map (\<lambda>p. Some (sub_number (position p) (valueAbsolute p))) ?pts)"
  let ?hi = "comparable (map (\<lambda>p. Some (position p)) ?pts)"
  have dp: "le_number ?d (position p)"
    using pos va inf by (intro difference_le_position) simp_all
  then have dn: "?d \<noteq> NaN" by (auto dest: le_number_defined)
  have lo_in: "?d \<in> set ?lo" using pt dn by (force simp: set_comparable)
  have hi_in: "position p \<in> set ?hi" using pt pos by (force simp: set_comparable)
  have "minimum_of ?lo \<noteq> None" using lo_in minimum_of_None [of ?lo]
    by (auto simp: comparable_defined)
  then obtain m where m: "minimum_of ?lo = Some m" by auto
  have "maximum_of ?hi \<noteq> None" using hi_in maximum_of_None [of ?hi]
    by (auto simp: comparable_defined)
  then obtain M where M: "maximum_of ?hi = Some M" by auto
  have "le_number m ?d" using minimum_of_SomeD [OF m] lo_in by blast
  moreover have "le_number (position p) M" using maximum_of_SomeD [OF M] hi_in by blast
  ultimately have le: "le_number m M" using dp by (blast intro: le_number_trans)
  have ne: "series_list \<noteq> []" using pt by auto
  show ?thesis
  proof (cases is100pct)
    case True
    then show ?thesis using ne le rnd m M
      by (simp add: calcValueDomain_def calc_min calc_max)
  next
    case False
    then show ?thesis using ne le m M
      by (simp add: calcValueDomain_def calc_min calc_max)
  qed
qed

lemma finite_double_numeral [simp]:
  "numeral k < (2 ^ 53 :: int) \<Longrightarrow> finite_double (numeral k)"
  "finite_double 0"
  by (simp_all add: finite_double_def)

theorem calcValueDomain_min_le_max_witness:
  "le_number (to_number (min_r (calcValueDomain (\<lambda>v p. v)
       [\<lparr>data = [\<lparr>categoryIndex = 0, position = Num 7, valueAbsolute = Num 3\<rparr>]\<rparr>] True)))
     (to_number (max_r (calcValueDomain (\<lambda>v p. v)
       [\<lparr>data = [\<lparr>categoryIndex = 0, position = Num 7, valueAbsolute = Num 3\<rparr>]\<rparr>] True)))"
  using calcValueDomain_min_le_max [of "\<lparr>categoryIndex = 0, position = Num 7, valueAbsolute = Num 3\<rparr>"
      "[\<lparr>data = [\<lparr>categoryIndex = 0, position = Num 7, valueAbsolute = Num 3\<rparr>]\<rparr>]" True "\<lambda>v p. v"]
  by (simp add: is_double_def)

text \<open>
  C4 as stated fails: a series without data points gives \<open>{min: undefined, max:
  undefined}\<close>, a negative \<open>valueAbsolute\<close> puts \<open>min\<close> above \<open>max\<close>, and a data point
  with \<open>position = valueAbsolute = Infinity\<close> gives \<open>{min: undefined, max: Infinity}\<close>.
\<close>

theorem calcValueDomain_min_le_max_counterexample:
  "\<not> le_number (to_number (min_r (calcValueDomain (\<lambda>v p. v) [\<lparr>data = []\<rparr>] False)))
                (to_number (max_r (calcValueDomain (\<lambda>v p. v) [\<lparr>data = []\<rparr>] False))) \<and>
   \<not> le_number (to_number (min_r (calcValueDomain (\<lambda>v p. v)
          [\<lparr>data = [\<lparr>categoryIndex = 0, position = Num 0, valueAbsolute = Num (- 5)\<rparr>]\<rparr>] False)))
        (to_number (max_r (calcValueDomain (\<lambda>v p. v)
          [\<lparr>data = [\<lparr>categoryIndex = 0, position = Num 0, valueAbsolute = Num (- 5)\<rparr>]\<rparr>] False))) \<and>
   \<not> le_number (to_number (min_r (calcValueDomain (\<lambda>v p. v)
          [\<lparr>data = [\<lparr>categoryIndex = 0, position = PosInf, valueAbsolute = PosInf\<rparr>]\<rparr>] False)))
        (to_number (max_r (calcValueDomain (\<lambda>v p. v)
          [\<lparr>data = [\<lparr>categoryIndex = 0, position = PosInf, valueAbsolute = PosInf\<rparr>]\<rparr>] False)))"
  by (simp add: calcValueDomain_def ge_number_def gt_number_def)


section \<open>Properties of the closest column\<close>

lemma closest_inv:
  assumes "k \<le> length cs"
  shows "case foldl (closest_step c cs) (0, Num MAX_VALUE) [0 ..< k] of (idx, d) \<Rightarrow>
     (if \<exists>j<k. lt_number (computed_distance c cs j) (Num MAX_VALUE)
      then d = computed_distance c cs idx \<and> idx < k \<and> lt_number d (Num MAX_VALUE) \<and>
           (\<forall>j<k. \<not> lt_number (computed_distance c cs j) d) \<and>
           (\<forall>j<idx. \<not> le_number (computed_distance c cs j) d)
      else idx = 0 \<and> d = Num MAX_VALUE)"
  using assms
proof (induction k)
  case 0
  then show ?case by simp
next
  case (Suc k)
  let ?dist = "computed_distance c cs"
  from Suc have IH: "case foldl (closest_step c cs) (0, Num MAX_VALUE) [0 ..< k] of (idx, d) \<Rightarrow>
     (if \<exists>j<k. lt_number (?dist j) (Num MAX_VALUE)
      then d = ?dist idx \<and> idx < k \<and> lt_number d (Num MAX_VALUE) \<and>
           (\<forall>j<k. \<not> lt_number (?dist j) d) \<and>
           (\<forall>j<idx. \<not> le_number (?dist j) d)
      else idx = 0 \<and> d = Num MAX_VALUE)" by auto
  obtain idx d where st: "foldl (closest_step c cs) (0, Num MAX_VALUE) [0 ..< k] = (idx, d)"
    by (cases "foldl (closest_step c cs) (0, Num MAX_VALUE) [0 ..< k]") auto
  have step: "closest_step c cs (idx, d) k =
      (if lt_number (?dist k) d then (k, ?dist k) else (idx, d))"
    by (simp add: closest_step_def computed_distance_def)
  have fold: "foldl (closest_step c cs) (0, Num MAX_VALUE) [0 ..< Suc k] =
      (if lt_number (?dist k) d then (k, ?dist k) else (idx, d))"
    using st step by simp
  show ?case
  proof (cases "\<exists>j<k. lt_number (?dist j) (Num MAX_VALUE)")
    case True
    with IH st have d: "d = ?dist idx" and ik: "idx < k" and dm: "lt_number d (Num MAX_VALUE)"
      and mn: "\<forall>j<k. \<not> lt_number (?dist j) d"
      and fst: "\<forall>j<idx. \<not> le_number (?dist j) d" by auto
    from True have ex: "\<exists>j<Suc k. lt_number (?dist j) (Num MAX_VALUE)"
      using less_Suc_eq by auto
    show ?thesis
    proof (cases "lt_number (?dist k) d")
      case lt: True
      have a: "\<forall>j<Suc k. \<not> lt_number (?dist j) (?dist k)"
        using mn lt by (auto simp: less_Suc_eq dest: lt_number_trans)
      have b: "\<forall>j<k. \<not> le_number (?dist j) (?dist k)"
        using mn lt by (auto dest: le_lt_number_trans)
      have "lt_number (?dist k) (Num MAX_VALUE)" using lt dm by (rule lt_number_trans)
      then show ?thesis unfolding fold using lt ex a b by simp
    next
      case False
      then have "\<forall>j<Suc k. \<not> lt_number (?dist j) d"
        using mn by (auto simp: less_Suc_eq)
      then show ?thesis unfolding fold using False ex d ik dm fst by simp
    qed
  next
    case False
    with IH st have i0: "idx = 0" and d: "d = Num MAX_VALUE" by auto
    show ?thesis
    proof (cases "lt_number (?dist k) (Num MAX_VALUE)")
      case lt: True
      then have ex: "\<exists>j<Suc k. lt_number (?dist j) (Num MAX_VALUE)" by auto
      have a: "\<forall>j<Suc k. \<not> lt_number (?dist j) (?dist k)"
        using False lt by (auto simp: less_Suc_eq dest: lt_number_trans)
      have b: "\<forall>j<k. \<not> le_number (?dist j) (?dist k)"
        using False lt by (auto dest: le_lt_number_trans)
      show ?thesis unfolding fold using lt ex a b d by simp
    next
      case nlt: False
      then have ne: "\<not> (\<exists>j<Suc k. lt_number (?dist j) (Num MAX_VALUE))"
        using False by (auto simp: less_Suc_eq)
      show ?thesis unfolding fold using nlt ne d i0
        by (simp only: if_not_P prod.case if_False simp_thms)
    qed
  qed
qed

lemma closest_examples:
  "getClosestColumnIndex (Num 5) [Num 0, Num 10, Num 20] = 0"
  "getClosestColumnIndex (Num 15) [Num 0, Num 10, Num 20] = 1"
  by (simp_all add: getClosestColumnIndex_def closest_step_def MAX_VALUE_def upt_rec)

text \<open>
  C3, as the code has it: when the distance of some centre is below
  \<open>Number.MAX_VALUE\<close>, \<open>getClosestColumnIndex\<close> returns the first index whose distance is
  minimal, the distance of a centre being \<open>Math.abs(coordinate - centre)\<close> as the program
  computes it; a distance that is \<open>NaN\<close> is never the minimum. When no distance is below
  \<open>Number.MAX_VALUE\<close> it returns \<open>0\<close>.
  \<open>getClosestColumnIndex(5, [0,10,20])\<close> is \<open>0\<close> and \<open>getClosestColumnIndex(15, [0,10,20])\<close>
  is \<open>1\<close>.
\<close>

theorem getClosestColumnIndex_first_minimum:
  "((\<exists>j < length cs. lt_number (computed_distance c cs j) (Num MAX_VALUE)) \<longrightarrow>
      getClosestColumnIndex c cs < length cs \<and>
      (\<forall>j < length cs. computed_distance c cs j = NaN \<or>
          le_number (computed_distance c cs (getClosestColumnIndex c cs)) (computed_distance c cs j)) \<and>
      (\<forall>j < getClosestColumnIndex c cs. computed_distance c cs j = NaN \<or>
          lt_number (computed_distance c cs (getClosestColumnIndex c cs)) (computed_distance c cs j))) \<and>
   ((\<forall>j < length cs. \<not> lt_number (computed_distance c cs j) (Num MAX_VALUE)) \<longrightarrow>
      getClosestColumnIndex c cs = 0) \<and>
   getClosestColumnIndex (Num 5) [Num 0, Num 10, Num 20] = 0 \<and>
   getClosestColumnIndex (Num 15) [Num 0, Num 10, Num 20] = 1"
proof -
  let ?dist = "computed_distance c cs"
  have none: "(\<forall>j < length cs. \<not> lt_number (?dist j) (Num MAX_VALUE)) \<longrightarrow>
      getClosestColumnIndex c cs = 0"
  proof
    assume no: "\<forall>j < length cs. \<not> lt_number (?dist j) (Num MAX_VALUE)"
    obtain idx d where st:
      "foldl (closest_step c cs) (0, Num MAX_VALUE) [0 ..< length cs] = (idx, d)"
      by (cases "foldl (closest_step c cs) (0, Num MAX_VALUE) [0 ..< length cs]") auto
    from closest_inv [of "length cs" cs c] st no have "idx = 0" by auto
    then show "getClosestColumnIndex c cs = 0"
      using st by (simp add: getClosestColumnIndex_def)
  qed
  have general: "(\<exists>j < length cs. lt_number (?dist j) (Num MAX_VALUE)) \<longrightarrow>
      getClosestColumnIndex c cs < length cs \<and>
      (\<forall>j < length cs. ?dist j = NaN \<or> le_number (?dist (getClosestColumnIndex c cs)) (?dist j)) \<and>
      (\<forall>j < getClosestColumnIndex c cs. ?dist j = NaN \<or>
          lt_number (?dist (getClosestColumnIndex c cs)) (?dist j))"
  proof
    assume ex: "\<exists>j < length cs. lt_number (?dist j) (Num MAX_VALUE)"
    obtain idx d where st:
      "foldl (closest_step c cs) (0, Num MAX_VALUE) [0 ..< length cs] = (idx, d)"
      by (cases "foldl (closest_step c cs) (0, Num MAX_VALUE) [0 ..< length cs]") auto
    have idx: "getClosestColumnIndex c cs = idx"
      using st by (simp add: getClosestColumnIndex_def)
    from closest_inv [of "length cs" cs c] st ex
    have il: "idx < length cs" and dm: "lt_number (?dist idx) (Num MAX_VALUE)"
      and mn: "\<forall>j<length cs. \<not> lt_number (?dist j) (?dist idx)"
      and fs: "\<forall>j<idx. \<not> le_number (?dist j) (?dist idx)"
      by auto
    have dn: "?dist idx \<noteq> NaN" using dm by (auto dest: lt_number_defined)
    have 1: "\<forall>j < length cs. ?dist j = NaN \<or> le_number (?dist idx) (?dist j)"
      using mn dn not_lt_number by blast
    have 2: "\<forall>j < idx. ?dist j = NaN \<or> lt_number (?dist idx) (?dist j)"
      using fs dn not_le_number by blast
    show "getClosestColumnIndex c cs < length cs \<and>
      (\<forall>j < length cs. ?dist j = NaN \<or> le_number (?dist (getClosestColumnIndex c cs)) (?dist j)) \<and>
      (\<forall>j < getClosestColumnIndex c cs. ?dist j = NaN \<or>
          lt_number (?dist (getClosestColumnIndex c cs)) (?dist j))"
      unfolding idx using il 1 2 by blast
  qed
  from general none closest_examples show ?thesis by (intro conjI)
qed

theorem getClosestColumnIndex_first_minimum_witness:
  "lt_number (computed_distance (Num 15) [Num 0, Num 10, Num 20] 0) (Num MAX_VALUE) \<and>
   getClosestColumnIndex (Num 15) [Num 0, Num 10, Num 20] < length [Num 0, Num 10, Num 20] \<and>
   (computed_distance (Num 15) [Num 0, Num 10, Num 20] 2 = NaN \<or>
    le_number (computed_distance (Num 15) [Num 0, Num 10, Num 20]
                 (getClosestColumnIndex (Num 15) [Num 0, Num 10, Num 20]))
              (computed_distance (Num 15) [Num 0, Num 10, Num 20] 2)) \<and>
   getClosestColumnIndex (Num 15) [Num 0, Num 10, Num 20] = 1 \<and>
   computed_distance (Num 1) [NaN] 0 = NaN \<and>
   getClosestColumnIndex (Num 1) [NaN] = 0"
proof -
  have far: "computed_distance (Num 1) [NaN] 0 = NaN"
    by (simp add: computed_distance_def)
  then have no: "\<forall>j < length [NaN]. \<not> lt_number (computed_distance (Num 1) [NaN] j) (Num MAX_VALUE)"
    by simp
  have near: "lt_number (computed_distance (Num 15) [Num 0, Num 10, Num 20] 0) (Num MAX_VALUE)"
    by (simp add: computed_distance_def MAX_VALUE_def)
  then have ex: "\<exists>j < length [Num 0, Num 10, Num 20].
      lt_number (computed_distance (Num 15) [Num 0, Num 10, Num 20] j) (Num MAX_VALUE)"
    by (intro exI [of _ 0]) simp
  have two: "2 < length [Num 0, Num 10, Num 20]" by simp
  from getClosestColumnIndex_first_minimum [of "[Num 0, Num 10, Num 20]" "Num 15"] ex two near
  have one: "getClosestColumnIndex (Num 15) [Num 0, Num 10, Num 20] < length [Num 0, Num 10, Num 20] \<and>
   (computed_distance (Num 15) [Num 0, Num 10, Num 20] 2 = NaN \<or>
    le_number (computed_distance (Num 15) [Num 0, Num 10, Num 20]
                 (getClosestColumnIndex (Num 15) [Num 0, Num 10, Num 20]))
              (computed_distance (Num 15) [Num 0, Num 10, Num 20] 2)) \<and>
   getClosestColumnIndex (Num 15) [Num 0, Num 10, Num 20] = 1"
    by blast
  from getClosestColumnIndex_first_minimum [of "[NaN]" "Num 1"] no
  have "getClosestColumnIndex (Num 1) [NaN] = 0" by blast
  with one near far show ?thesis by blast
qed

text \<open>
  The distances are the computed ones: from \<open>10^16\<close> the centres 0 and 1 are both at the
  computed distance \<open>10^16\<close>, since \<open>10^16 - 1\<close> is not a double, and the first is
  returned although the second is nearer.
\<close>

lemma round_1e16: "round_to_double 10000000000000000 = Num 10000000000000000"
proof (rule round_to_double_exact [where m = 152587890625 and k = 16])
  show "(10000000000000000 :: real) = real_of_int 152587890625 * pow2 16" by (simp add: pow2_def)
qed simp_all

lemma getClosestColumnIndex_rounded_distance:
  "getClosestColumnIndex (Num 10000000000000000) [Num 0, Num 1] = 0 \<and>
   \<bar>10000000000000000 - 1\<bar> < \<bar>10000000000000000 - (0 :: real)\<bar>"
  by (simp add: getClosestColumnIndex_def closest_step_def MAX_VALUE_def upt_rec round_big round_1e16)

lemma round_to_double_overflow:
  assumes "x \<le> - (2 ^ 1024)"
  shows "round_to_double x = NegInf"
proof -
  have ax: "2 ^ 1024 \<le> \<bar>x\<bar>" using assms by linarith
  have e: "ulp_exponent x = 971"
  proof (rule ulp_exponent_eq)
    have "pow2 (971 + 52) \<le> 2 ^ 1024" by (simp add: pow2_def)
    with ax show "971 = - 1074 \<or> pow2 (971 + 52) \<le> \<bar>x\<bar>" by linarith
  qed simp_all
  have "x / pow2 971 \<le> - (2 ^ 1024) / pow2 971" using assms by (intro divide_right_mono) simp_all
  also have "- (2 ^ 1024) / pow2 971 = of_int (- (2 ^ 53))" by (simp add: pow2_def)
  finally have "round_half_even (x / pow2 971) \<le> - (2 ^ 53)" by (rule round_half_even_le)
  then have "real_of_int (round_half_even (x / pow2 971)) \<le> of_int (- (2 ^ 53))"
    by (simp only: of_int_le_iff)
  then have "real_of_int (round_half_even (x / pow2 971)) * pow2 971 \<le> of_int (- (2 ^ 53)) * pow2 971"
    by (intro mult_right_mono) simp_all
  also have "of_int (- (2 ^ 53)) * pow2 971 = - (2 ^ 1024)" by (simp add: pow2_def)
  finally have r: "real_of_int (round_half_even (x / pow2 971)) * pow2 971 \<le> - (2 ^ 1024)" .
  moreover have "(0 :: real) < 2 ^ 1024" by simp
  ultimately have "\<not> 2 ^ 1024 \<le> real_of_int (round_half_even (x / pow2 971)) * pow2 971"
    by linarith
  with r show ?thesis by (simp only: round_to_double_def e Let_def if_True if_False)
qed

lemma MAX_VALUE_double: "round_to_double MAX_VALUE = Num MAX_VALUE"
proof (rule round_to_double_exact [where m = "2 ^ 53 - 1" and k = 971])
  show "MAX_VALUE = real_of_int (2 ^ 53 - 1) * pow2 971"
    by (simp add: MAX_VALUE_def pow2_def)
  show "\<bar>MAX_VALUE\<bar> < 2 ^ 1024" by (simp add: MAX_VALUE_def)
qed simp_all

text \<open>
  C3 as stated fails. On its second example the centres 10 and 20 are both at distance
  5 from 15, and the strict comparison keeps the earlier one. And the index returned is
  not always one of minimum distance: no distance is below the initial
  \<open>Number.MAX_VALUE\<close> here (the first is \<open>Infinity\<close>, the second \<open>Number.MAX_VALUE\<close>), so
  index 0 is returned although the second centre is closer.
\<close>

theorem getClosestColumnIndex_tie_counterexample:
  "getClosestColumnIndex (Num 15) [Num 0, Num 10, Num 20] \<noteq> 2 \<and>
   getClosestColumnIndex (Num (- MAX_VALUE)) [Num MAX_VALUE, Num 0] = 0 \<and>
   lt_number (computed_distance (Num (- MAX_VALUE)) [Num MAX_VALUE, Num 0] 1)
             (computed_distance (Num (- MAX_VALUE)) [Num MAX_VALUE, Num 0] 0)"
proof -
  have a: "round_to_double (- (2 * MAX_VALUE)) = NegInf"
    by (rule round_to_double_overflow) (simp add: MAX_VALUE_def)
  have b: "round_to_double (- MAX_VALUE) = Num (- MAX_VALUE)"
  proof (rule round_to_double_exact [where m = "- (2 ^ 53 - 1)" and k = 971])
    show "- MAX_VALUE = real_of_int (- (2 ^ 53 - 1)) * pow2 971"
      by (simp add: MAX_VALUE_def pow2_def)
    show "\<bar>- MAX_VALUE\<bar> < 2 ^ 1024" by (simp add: MAX_VALUE_def)
  qed simp_all
  have m: "\<bar>MAX_VALUE\<bar> = MAX_VALUE" by (simp add: MAX_VALUE_def)
  have 1: "getClosestColumnIndex (Num 15) [Num 0, Num 10, Num 20] \<noteq> 2"
    by (simp add: getClosestColumnIndex_def closest_step_def MAX_VALUE_def upt_rec)
  have 2: "getClosestColumnIndex (Num (- MAX_VALUE)) [Num MAX_VALUE, Num 0] = 0 \<and>
   lt_number (computed_distance (Num (- MAX_VALUE)) [Num MAX_VALUE, Num 0] 1)
             (computed_distance (Num (- MAX_VALUE)) [Num MAX_VALUE, Num 0] 0)"
    by (simp add: getClosestColumnIndex_def closest_step_def computed_distance_def upt_rec a b m)
  from 1 2 show ?thesis by (intro conjI) simp_all
qed

section \<open>Properties of the range filter\<close>

lemma foldl_update_upt:
  "n \<le> length xs \<Longrightarrow>
   foldl (\<lambda>a k. a[k := g k (a ! k)]) xs [0 ..< n] =
   map (\<lambda>k. if k < n then g k (xs ! k) else xs ! k) [0 ..< length xs]"
proof (induction n)
  case 0
  then show ?case by (simp add: map_nth)
next
  case (Suc n)
  then have n: "n < length xs" by simp
  let ?a = "map (\<lambda>k. if k < n then g k (xs ! k) else xs ! k) [0 ..< length xs]"
  have "foldl (\<lambda>a k. a[k := g k (a ! k)]) xs [0 ..< Suc n] = ?a[n := g n (?a ! n)]"
    using Suc by simp
  also have "\<dots> = map (\<lambda>k. if k < Suc n then g k (xs ! k) else xs ! k) [0 ..< length xs]"
    using n by (intro nth_equalityI) (auto simp: nth_list_update less_Suc_eq)
  finally show ?case .
qed

lemma init_newValues_eq: "init_newValues vals = replicate (length vals) []"
proof -
  have "foldl (\<lambda>newValues j. newValues @ [[]]) [] [0 ..< n] = replicate n []" for n :: nat
    by (induction n) (simp_all add: replicate_append_same)
  then show ?thesis by (simp add: init_newValues_def)
qed

lemma push_values_eq:
  assumes "length nv = length vals"
  shows "push_values vals t nv =
         map (\<lambda>k. nv ! k @ [js_index Undefined (DataViewValueColumn.values (vals ! k)) (int t)])
           [0 ..< length vals]"
proof -
  have "push_values vals t nv =
        foldl (\<lambda>a k. a[k := (\<lambda>k v. v @ [js_index Undefined (DataViewValueColumn.values (vals ! k)) (int t)]) k (a ! k)])
          nv [0 ..< length nv]"
    using assms by (simp add: push_values_def)
  also have "\<dots> = map (\<lambda>k. if k < length nv
        then nv ! k @ [js_index Undefined (DataViewValueColumn.values (vals ! k)) (int t)] else nv ! k)
        [0 ..< length nv]"
    by (rule foldl_update_upt) simp
  finally show ?thesis using assms by simp
qed

lemma set_measures_eq:
  assumes "length nv = length vals"
  shows "set_measures vals nv =
         map (\<lambda>t. (vals ! t)\<lparr>DataViewValueColumn.values := nv ! t\<rparr>) [0 ..< length vals]"
proof -
  have "set_measures vals nv =
        foldl (\<lambda>a t. a[t := (\<lambda>t col. col\<lparr>DataViewValueColumn.values := nv ! t\<rparr>) t (a ! t)])
          vals [0 ..< length vals]"
    by (simp add: set_measures_def)
  also have "\<dots> = map (\<lambda>t. if t < length vals
        then (vals ! t)\<lparr>DataViewValueColumn.values := nv ! t\<rparr> else vals ! t) [0 ..< length vals]"
    by (rule foldl_update_upt) simp
  finally show ?thesis by simp
qed

lemma kept_upto_Suc:
  "kept_upto strnum mn mx cv (Suc n) =
   kept_upto strnum mn mx cv n @ (if in_bounds strnum mn mx (cv ! n) then [n] else [])"
  by (simp add: kept_upto_def)

lemma filter_step_in_bounds:
  "filter_step strnum vals cv co mn mx (a, b, c) t =
     (if in_bounds strnum mn mx (cv ! t)
      then (a @ [cv ! t], b @ [js_index None co (int t)], push_values vals t c)
      else (a, b, c))"
  by (simp add: filter_step_def in_bounds_def)

lemma filter_loop_upto:
  "n \<le> length cv \<Longrightarrow>
   foldl (filter_step strnum vals cv co mn mx) ([], [], init_newValues vals) [0 ..< n] =
   (map (\<lambda>i. cv ! i) (kept_upto strnum mn mx cv n),
    restrict_to None (kept_upto strnum mn mx cv n) co,
    map (\<lambda>k. restrict_to Undefined (kept_upto strnum mn mx cv n) (DataViewValueColumn.values (vals ! k)))
      [0 ..< length vals])"
proof (induction n)
  case 0
  show ?case
    by (simp add: kept_upto_def restrict_to_def init_newValues_eq map_replicate_const [symmetric] del: replicate.simps)
       (simp add: map_replicate_const)
next
  case (Suc n)
  then have IH: "foldl (filter_step strnum vals cv co mn mx) ([], [], init_newValues vals) [0 ..< n] =
   (map (\<lambda>i. cv ! i) (kept_upto strnum mn mx cv n),
    restrict_to None (kept_upto strnum mn mx cv n) co,
    map (\<lambda>k. restrict_to Undefined (kept_upto strnum mn mx cv n) (DataViewValueColumn.values (vals ! k)))
      [0 ..< length vals])" by simp
  let ?st = "(map (\<lambda>i. cv ! i) (kept_upto strnum mn mx cv n),
         restrict_to None (kept_upto strnum mn mx cv n) co,
         map (\<lambda>k. restrict_to Undefined (kept_upto strnum mn mx cv n) (DataViewValueColumn.values (vals ! k)))
           [0 ..< length vals])"
  have "foldl (filter_step strnum vals cv co mn mx) ([], [], init_newValues vals) [0 ..< Suc n] =
      filter_step strnum vals cv co mn mx
        (foldl (filter_step strnum vals cv co mn mx) ([], [], init_newValues vals) [0 ..< n]) n"
    by simp
  also have "\<dots> = filter_step strnum vals cv co mn mx ?st n"
    by (simp only: IH)
  also have "\<dots> = (map (\<lambda>i. cv ! i) (kept_upto strnum mn mx cv (Suc n)),
    restrict_to None (kept_upto strnum mn mx cv (Suc n)) co,
    map (\<lambda>k. restrict_to Undefined (kept_upto strnum mn mx cv (Suc n)) (DataViewValueColumn.values (vals ! k)))
      [0 ..< length vals])"
  proof (cases "in_bounds strnum mn mx (cv ! n)")
    case True
    have pv: "push_values vals n (map (\<lambda>k. restrict_to Undefined (kept_upto strnum mn mx cv n) (DataViewValueColumn.values (vals ! k)))
      [0 ..< length vals]) =
      map (\<lambda>k. restrict_to Undefined (kept_upto strnum mn mx cv (Suc n)) (DataViewValueColumn.values (vals ! k)))
      [0 ..< length vals]"
      using True by (subst push_values_eq) (simp_all add: kept_upto_Suc restrict_to_def)
    show ?thesis using True pv
      by (simp add: filter_step_in_bounds kept_upto_Suc restrict_to_def)
  next
    case False
    then show ?thesis
      by (simp add: filter_step_in_bounds kept_upto_Suc)
  qed
  finally show ?case .
qed

lemma filter_loop_eq:
  "filter_loop strnum vals cv co mn mx =
   (restrict_to Undefined (kept_indices strnum mn mx cv) cv,
    restrict_to None (kept_indices strnum mn mx cv) co,
    map (\<lambda>col. restrict_to Undefined (kept_indices strnum mn mx cv) (DataViewValueColumn.values col)) vals)"
proof -
  have k: "kept_upto strnum mn mx cv (length cv) = kept_indices strnum mn mx cv"
    by (simp add: kept_upto_def kept_indices_def)
  have a: "map (\<lambda>i. cv ! i) (kept_indices strnum mn mx cv) = restrict_to Undefined (kept_indices strnum mn mx cv) cv"
    by (simp add: restrict_to_def kept_indices_def js_index_def)
  have b: "map (\<lambda>k. restrict_to Undefined (kept_indices strnum mn mx cv) (DataViewValueColumn.values (vals ! k)))
      [0 ..< length vals] = map (\<lambda>col. restrict_to Undefined (kept_indices strnum mn mx cv) (DataViewValueColumn.values col)) vals"
    by (intro nth_equalityI) simp_all
  show ?thesis
    using filter_loop_upto [of "length cv" cv strnum vals co mn mx]
    by (simp add: filter_loop_def k a b)
qed


lemma resolved_min_first:
  "resolved_min mn cv = (if typeof_number mn then mn else case cv of [] \<Rightarrow> Undefined | v # _ \<Rightarrow> v)"
  by (cases cv) (simp_all add: resolved_min_def js_index_def)

lemma resolved_max_last:
  "resolved_max mx cv = (if typeof_number mx then mx else if cv = [] then Undefined else last cv)"
proof (cases "cv = []")
  case True
  then show ?thesis by (simp add: resolved_max_def js_index_def)
next
  case False
  then have "nat (int (length cv) - 1) = length cv - 1" "0 \<le> int (length cv) - 1" by auto
  then show ?thesis using False by (simp add: resolved_max_def js_index_def last_conv_nth)
qed

lemma transformDomain_path0:
  assumes cats: "categories dv = Some (Some c # rest)"
    and vals: "DataViewCategorical.values dv = Some vals"
    and ne: "vals \<noteq> []"
    and num: "typeof_number mn \<or> typeof_number mx"
    and ord: "\<not> isOrdinal (type (source c))"
  shows "transformDomain isOrdinal strnum dv mn mx =
     (case DataViewCategoryColumn.values c of
        None \<Rightarrow> ReturnsInput
      | Some cv \<Rightarrow>
     (case objects c of
        None \<Rightarrow> ReturnsInput
      | Some co \<Rightarrow>
       if js_gt strnum (resolved_min mn cv) (resolved_max mx cv) then ReturnsInput
       else
            (case filter_loop strnum vals cv co (resolved_min mn cv) (resolved_max mx cv) of
               (newcategoryValues, newObjects, newValues) \<Rightarrow>
                 ReturnsNew
                      (dv\<lparr>DataViewCategorical.values :=
                                   Some (set_measures vals newValues),
                                 categories := Some (Some (c\<lparr>DataViewCategoryColumn.values := Some newcategoryValues, objects := Some newObjects\<rparr>) # rest)\<rparr>))))"
  using assms
  apply (simp add: transformDomain_def Let_def split: option.splits prod.splits)
  done


lemma set_measures_restrict:
  "set_measures vals (map (\<lambda>col. restrict_to Undefined ks (DataViewValueColumn.values col)) vals)
      = map (\<lambda>col. col\<lparr>DataViewValueColumn.values := restrict_to Undefined ks (DataViewValueColumn.values col)\<rparr>) vals"
proof -
  have "set_measures vals (map (\<lambda>col. restrict_to Undefined ks (DataViewValueColumn.values col)) vals)
      = map (\<lambda>t. (vals ! t)\<lparr>DataViewValueColumn.values :=
           map (\<lambda>col. restrict_to Undefined ks (DataViewValueColumn.values col)) vals ! t\<rparr>) [0 ..< length vals]"
    by (rule set_measures_eq) simp
  also have "\<dots> = map (\<lambda>col. col\<lparr>DataViewValueColumn.values := restrict_to Undefined ks (DataViewValueColumn.values col)\<rparr>) vals"
    by (rule nth_equalityI) simp_all
  finally show ?thesis .
qed

lemma transformDomain_path:
  assumes cats: "categories dv = Some (Some c # rest)"
    and vals: "DataViewCategorical.values dv = Some vals"
    and ne: "vals \<noteq> []"
    and num: "typeof_number mn \<or> typeof_number mx"
    and ord: "\<not> isOrdinal (type (source c))"
  shows "transformDomain isOrdinal strnum dv mn mx =
     (case DataViewCategoryColumn.values c of
        None \<Rightarrow> ReturnsInput
      | Some cv \<Rightarrow>
     (case objects c of
        None \<Rightarrow> ReturnsInput
      | Some co \<Rightarrow>
       if js_gt strnum (resolved_min mn cv) (resolved_max mx cv) then ReturnsInput
       else ReturnsNew
              (dv\<lparr>DataViewCategorical.values := Some (map (\<lambda>col. col\<lparr>DataViewValueColumn.values :=
                        restrict_to Undefined
                          (kept_indices strnum (resolved_min mn cv) (resolved_max mx cv) cv)
                          (DataViewValueColumn.values col)\<rparr>) vals),
                  categories := Some (Some (c\<lparr>DataViewCategoryColumn.values :=
                        Some (restrict_to Undefined
                          (kept_indices strnum (resolved_min mn cv) (resolved_max mx cv) cv) cv),
                      objects := Some (restrict_to None
                          (kept_indices strnum (resolved_min mn cv) (resolved_max mx cv) cv) co)\<rparr>)
                    # rest)\<rparr>)))"
  unfolding transformDomain_path0 [of dv c rest vals mn mx isOrdinal strnum, OF assms]
    filter_loop_eq prod.case set_measures_restrict
  by (rule refl)

lemma transformDomain_new:
  assumes p: "transformDomain isOrdinal strnum dv mn mx = ReturnsNew dv'"
  shows "\<exists>c rest vals cv co.
           categories dv = Some (Some c # rest) \<and> DataViewCategorical.values dv = Some vals \<and>
           vals \<noteq> [] \<and> (typeof_number mn \<or> typeof_number mx) \<and> \<not> isOrdinal (type (source c)) \<and>
           DataViewCategoryColumn.values c = Some cv \<and> objects c = Some co \<and>
           \<not> js_gt strnum (resolved_min mn cv) (resolved_max mx cv)"
proof -
  from p obtain cats vals where c: "categories dv = Some cats"
    and v: "DataViewCategorical.values dv = Some vals"
    by (auto simp: transformDomain_def split: option.splits)
  from p c v have ne: "cats \<noteq> []" "vals \<noteq> []" and num: "typeof_number mn \<or> typeof_number mx"
    by (auto simp: transformDomain_def split: if_splits)
  then obtain c0 rest where cs: "cats = c0 # rest" by (cases cats) auto
  from p c v ne num cs obtain cc where c0: "c0 = Some cc" and ord: "\<not> isOrdinal (type (source cc))"
    by (cases c0) (auto simp: transformDomain_def Let_def split: if_splits)
  have c': "categories dv = Some (Some cc # rest)" using c cs c0 by simp
  note path = transformDomain_path [of dv cc rest vals mn mx isOrdinal strnum, OF c' v ne(2) num ord]
  from p obtain cv where cv: "DataViewCategoryColumn.values cc = Some cv"
    unfolding path by (cases "DataViewCategoryColumn.values cc") auto
  from p cv obtain co where co: "objects cc = Some co"
    unfolding path by (cases "objects cc") auto
  from p cv co have "\<not> js_gt strnum (resolved_min mn cv) (resolved_max mx cv)"
    unfolding path by (auto split: if_splits)
  with c' v ne num ord cv co show ?thesis by blast
qed

lemma restrict_kept_filter:
  "restrict_to Undefined (kept_indices strnum mn mx cv) cv = filter (in_bounds strnum mn mx) cv"
proof -
  have "restrict_to Undefined (kept_indices strnum mn mx cv) cv =
        map (\<lambda>i. cv ! i) (filter (\<lambda>i. in_bounds strnum mn mx (cv ! i)) [0 ..< length cv])"
    by (simp add: restrict_to_def kept_indices_def js_index_def)
  also have "\<dots> = filter (in_bounds strnum mn mx) (map (\<lambda>i. cv ! i) [0 ..< length cv])"
    by (simp add: filter_map comp_def)
  finally show ?thesis by (simp add: map_nth)
qed

lemma length_restrict_to: "length (restrict_to u ks xs) = length ks"
  by (simp add: restrict_to_def)


text \<open>The definitions unfolded when an instance is evaluated.\<close>

lemmas example_defs = example_isOrdinal_def example_strnum_def example_category_def
  example_text_category_def example_measure_def example_view_def example_view_no_objects_def
  example_view_ordinal_def

lemmas js_defs = js_gt_def js_ge_def js_le_def in_bounds_def resolved_min_def resolved_max_def
  js_index_def kept_indices_def restrict_to_def

lemma transformDomain_new_explicit:
  assumes p: "transformDomain isOrdinal strnum dv mn mx = ReturnsNew dv'"
  shows "\<exists>c rest vals cv co ks.
           categories dv = Some (Some c # rest) \<and> DataViewCategorical.values dv = Some vals \<and>
           vals \<noteq> [] \<and>
           DataViewCategoryColumn.values c = Some cv \<and> objects c = Some co \<and>
           dv' = dv\<lparr>DataViewCategorical.values :=
                   Some (map (\<lambda>col. col\<lparr>DataViewValueColumn.values :=
                                restrict_to Undefined ks (DataViewValueColumn.values col)\<rparr>) vals),
                 categories :=
                   Some (Some (c\<lparr>DataViewCategoryColumn.values := Some (restrict_to Undefined ks cv),
                                 objects := Some (restrict_to None ks co)\<rparr>) # rest)\<rparr>"
proof -
  from transformDomain_new [OF p] obtain c rest vals cv co where
    h: "categories dv = Some (Some c # rest)" "DataViewCategorical.values dv = Some vals"
       "vals \<noteq> []" "typeof_number mn \<or> typeof_number mx" "\<not> isOrdinal (type (source c))"
       "DataViewCategoryColumn.values c = Some cv" "objects c = Some co"
       "\<not> js_gt strnum (resolved_min mn cv) (resolved_max mx cv)"
    by blast
  from p have "dv' = dv\<lparr>DataViewCategorical.values :=
                   Some (map (\<lambda>col. col\<lparr>DataViewValueColumn.values :=
                                restrict_to Undefined (kept_indices strnum (resolved_min mn cv) (resolved_max mx cv) cv) (DataViewValueColumn.values col)\<rparr>) vals),
                 categories :=
                   Some (Some (c\<lparr>DataViewCategoryColumn.values := Some (restrict_to Undefined (kept_indices strnum (resolved_min mn cv) (resolved_max mx cv) cv) cv),
                                 objects := Some (restrict_to None (kept_indices strnum (resolved_min mn cv) (resolved_max mx cv) cv) co)\<rparr>) # rest)\<rparr>"
    unfolding transformDomain_path [of dv c rest vals mn mx isOrdinal strnum, OF h(1,2,3,4,5)]
    using h(6,7,8) by simp
  with h show ?thesis by blast
qed

text \<open>
  C1, as the code has it: for a data view with a first category column and at least
  one value column, at least one numeric bound and a type that is not ordinal, whose
  category values and metadata objects are present and whose resolved bounds are not
  \<open>min > max\<close>, \<open>transformDomain\<close> keeps exactly the indices \<open>i\<close> with
  \<open>categoryValues[i]\<close> in \<open>[min, max]\<close>, in increasing order: the category values, the
  metadata objects and every value column of the result are the input's restricted to
  those indices, and the output category values are a subsequence of the input's.
\<close>

theorem transformDomain_filters:
  assumes cats: "categories dataView = Some (Some c # rest)"
    and vals: "DataViewCategorical.values dataView = Some dataView_values"
    and ne: "dataView_values \<noteq> []"
    and num: "typeof_number mn \<or> typeof_number mx"
    and ord: "\<not> isOrdinal (type (source c))"
    and cv: "DataViewCategoryColumn.values c = Some categoryValues"
    and co: "objects c = Some categoryObjects"
    and rng: "\<not> js_gt strnum (resolved_min mn categoryValues) (resolved_max mx categoryValues)"
    and ks: "ks = kept_indices strnum (resolved_min mn categoryValues)
                    (resolved_max mx categoryValues) categoryValues"
  shows "transformDomain isOrdinal strnum dataView mn mx =
           ReturnsNew
             (dataView\<lparr>DataViewCategorical.values :=
                 Some (map (\<lambda>col. col\<lparr>DataViewValueColumn.values :=
                              restrict_to Undefined ks (DataViewValueColumn.values col)\<rparr>)
                        dataView_values),
               categories :=
                 Some (Some (c\<lparr>DataViewCategoryColumn.values :=
                                 Some (restrict_to Undefined ks categoryValues),
                               objects := Some (restrict_to None ks categoryObjects)\<rparr>) # rest)\<rparr>) \<and>
         set ks = {i. i < length categoryValues \<and>
                      in_bounds strnum (resolved_min mn categoryValues)
                        (resolved_max mx categoryValues) (categoryValues ! i)} \<and>
         sorted_wrt (<) ks \<and>
         restrict_to Undefined ks categoryValues =
           filter (in_bounds strnum (resolved_min mn categoryValues)
                     (resolved_max mx categoryValues)) categoryValues \<and>
         subseq (restrict_to Undefined ks categoryValues) categoryValues"
proof -
  have res: "transformDomain isOrdinal strnum dataView mn mx =
           ReturnsNew
             (dataView\<lparr>DataViewCategorical.values :=
                 Some (map (\<lambda>col. col\<lparr>DataViewValueColumn.values :=
                              restrict_to Undefined ks (DataViewValueColumn.values col)\<rparr>)
                        dataView_values),
               categories :=
                 Some (Some (c\<lparr>DataViewCategoryColumn.values :=
                                 Some (restrict_to Undefined ks categoryValues),
                               objects := Some (restrict_to None ks categoryObjects)\<rparr>) # rest)\<rparr>)"
    unfolding transformDomain_path [of dataView c rest dataView_values mn mx isOrdinal strnum,
        OF cats vals ne num ord] ks
    using cv co rng by simp
  have st: "set ks = {i. i < length categoryValues \<and>
                      in_bounds strnum (resolved_min mn categoryValues)
                        (resolved_max mx categoryValues) (categoryValues ! i)}"
    unfolding ks kept_indices_def by auto
  have so: "sorted_wrt (<) ks"
    unfolding ks kept_indices_def by (rule sorted_wrt_filter) simp
  have fl: "restrict_to Undefined ks categoryValues =
           filter (in_bounds strnum (resolved_min mn categoryValues)
                     (resolved_max mx categoryValues)) categoryValues"
    unfolding ks by (rule restrict_kept_filter)
  have sb: "subseq (restrict_to Undefined ks categoryValues) categoryValues"
    unfolding fl by simp
  from res st so fl sb show ?thesis by (intro conjI)
qed

theorem transformDomain_filters_witness:
  "transformDomain example_isOrdinal example_strnum example_view (Number (Num 2)) Undefined =
     ReturnsNew
       (example_view\<lparr>DataViewCategorical.values :=
           Some [\<lparr>DataViewValueColumn.values = [Number (Num 20), Number (Num 30)]\<rparr>],
         categories :=
           Some [Some (example_category\<lparr>DataViewCategoryColumn.values :=
                         Some [Number (Num 2), Number (Num 3)],
                       objects := Some [Some (), None]\<rparr>),
                 Some example_text_category]\<rparr>) \<and>
   subseq [Number (Num 2), Number (Num 3)] [Number (Num 1), Number (Num 2), Number (Num 3)]"
proof -
  have ks: "[1, 2] = kept_indices example_strnum
      (resolved_min (Number (Num 2)) [Number (Num 1), Number (Num 2), Number (Num 3)])
      (resolved_max Undefined [Number (Num 1), Number (Num 2), Number (Num 3)])
      [Number (Num 1), Number (Num 2), Number (Num 3)]"
    by (simp add: js_defs upt_rec)
  have rng: "\<not> js_gt example_strnum
      (resolved_min (Number (Num 2)) [Number (Num 1), Number (Num 2), Number (Num 3)])
      (resolved_max Undefined [Number (Num 1), Number (Num 2), Number (Num 3)])"
    by (simp add: js_defs)
  from transformDomain_filters [of example_view example_category "[Some example_text_category]"
      "[example_measure]" "Number (Num 2)" Undefined example_isOrdinal
      "[Number (Num 1), Number (Num 2), Number (Num 3)]" "[None, Some (), None]"
      example_strnum "[1, 2]", OF _ _ _ _ _ _ _ rng ks]
  show ?thesis
    by (simp add: example_defs restrict_to_def js_index_def)
qed

text \<open>
  C1 as stated fails: with the metadata objects absent, or with \<open>min > max\<close>, the
  function returns its input, all three categories, where the bounds keep one category
  or none.
\<close>

theorem transformDomain_filters_counterexample:
  "transformDomain example_isOrdinal example_strnum example_view_no_objects
     (Number (Num 2)) (Number (Num 2)) = ReturnsInput \<and>
   restrict_to Undefined
     (kept_indices example_strnum (Number (Num 2)) (Number (Num 2))
        [Number (Num 1), Number (Num 2), Number (Num 3)])
     [Number (Num 1), Number (Num 2), Number (Num 3)] = [Number (Num 2)] \<and>
   transformDomain example_isOrdinal example_strnum example_view
     (Number (Num 3)) (Number (Num 1)) = ReturnsInput \<and>
   restrict_to Undefined
     (kept_indices example_strnum (Number (Num 3)) (Number (Num 1))
        [Number (Num 1), Number (Num 2), Number (Num 3)])
     [Number (Num 1), Number (Num 2), Number (Num 3)] = []"
  by (simp add: transformDomain_def example_defs js_defs upt_rec)

text \<open>
  C5, as the code has it: when the data view has a first category column and at
  least one value column, at least one of \<open>min\<close>, \<open>max\<close> is a number and the category
  type is ordinal, \<open>transformDomain\<close> returns \<open>undefined\<close>, whatever the bounds are
  otherwise.
\<close>

theorem transformDomain_ordinal:
  assumes cats: "categories dataView = Some (Some c # rest)"
    and vals: "DataViewCategorical.values dataView = Some dataView_values"
    and ne: "dataView_values \<noteq> []"
    and num: "typeof_number mn \<or> typeof_number mx"
    and ord: "isOrdinal (type (source c))"
  shows "transformDomain isOrdinal strnum dataView mn mx = ReturnsUndefined"
  using assms by (simp add: transformDomain_def)

theorem transformDomain_ordinal_witness:
  "transformDomain example_isOrdinal example_strnum example_view_ordinal (Number (Num 2)) Undefined
     = ReturnsUndefined \<and>
   transformDomain example_isOrdinal example_strnum example_view_ordinal Null (Number (Num 0))
     = ReturnsUndefined"
  using transformDomain_ordinal [of example_view_ordinal example_text_category "[]"
      "[example_measure]" "Number (Num 2)" Undefined example_isOrdinal example_strnum]
    transformDomain_ordinal [of example_view_ordinal example_text_category "[]"
      "[example_measure]" Null "Number (Num 0)" example_isOrdinal example_strnum]
  by (simp add: example_defs)

text \<open>
  C5 as stated fails: on an ordinal axis with neither bound a number the function
  returns its input, not \<open>undefined\<close>.
\<close>

theorem transformDomain_ordinal_counterexample:
  "example_isOrdinal (type (source example_text_category)) \<and>
   categories example_view_ordinal = Some [Some example_text_category] \<and>
   transformDomain example_isOrdinal example_strnum example_view_ordinal Undefined Undefined
     = ReturnsInput"
  by (simp add: transformDomain_def example_defs)

text \<open>
  C6, as the code has it: \<open>transformDomain\<close> returns the reference it was given on
  each of its four insufficient-input paths: categories or values missing or empty;
  neither bound a number; category values or metadata objects absent; resolved
  \<open>min > max\<close>, where a bound that is not a number is the first, respectively the last,
  category value. The last two paths lie behind the ordinal check: they are taken when
  the first category column is present and its type is not ordinal.
\<close>

theorem transformDomain_returns_input:
  "((categories dataView = None \<or> DataViewCategorical.values dataView = None \<or>
     categories dataView = Some [] \<or> DataViewCategorical.values dataView = Some []) \<longrightarrow>
      transformDomain isOrdinal strnum dataView mn mx = ReturnsInput) \<and>
   (\<not> typeof_number mn \<and> \<not> typeof_number mx \<longrightarrow>
      transformDomain isOrdinal strnum dataView mn mx = ReturnsInput) \<and>
   (categories dataView = Some (Some c # rest) \<and> \<not> isOrdinal (type (source c)) \<and>
    (DataViewCategoryColumn.values c = None \<or> objects c = None) \<longrightarrow>
      transformDomain isOrdinal strnum dataView mn mx = ReturnsInput) \<and>
   (categories dataView = Some (Some c # rest) \<and> \<not> isOrdinal (type (source c)) \<and>
    DataViewCategoryColumn.values c = Some categoryValues \<and> objects c = Some categoryObjects \<and>
    js_gt strnum (resolved_min mn categoryValues) (resolved_max mx categoryValues) \<longrightarrow>
      transformDomain isOrdinal strnum dataView mn mx = ReturnsInput) \<and>
   resolved_min mn categoryValues =
     (if typeof_number mn then mn else case categoryValues of [] \<Rightarrow> Undefined | v # _ \<Rightarrow> v) \<and>
   resolved_max mx categoryValues =
     (if typeof_number mx then mx
      else if categoryValues = [] then Undefined else last categoryValues)"
proof -
  have p1: "(categories dataView = None \<or> DataViewCategorical.values dataView = None \<or>
     categories dataView = Some [] \<or> DataViewCategorical.values dataView = Some []) \<longrightarrow>
      transformDomain isOrdinal strnum dataView mn mx = ReturnsInput"
    by (auto simp: transformDomain_def split: option.splits)
  have p2: "\<not> typeof_number mn \<and> \<not> typeof_number mx \<longrightarrow>
      transformDomain isOrdinal strnum dataView mn mx = ReturnsInput"
    by (auto simp: transformDomain_def split: option.splits)
  have p3: "categories dataView = Some (Some c # rest) \<and> \<not> isOrdinal (type (source c)) \<and>
    (DataViewCategoryColumn.values c = None \<or> objects c = None) \<longrightarrow>
      transformDomain isOrdinal strnum dataView mn mx = ReturnsInput"
    by (auto simp: transformDomain_def split: option.splits)
  have p4: "categories dataView = Some (Some c # rest) \<and> \<not> isOrdinal (type (source c)) \<and>
    DataViewCategoryColumn.values c = Some categoryValues \<and> objects c = Some categoryObjects \<and>
    js_gt strnum (resolved_min mn categoryValues) (resolved_max mx categoryValues) \<longrightarrow>
      transformDomain isOrdinal strnum dataView mn mx = ReturnsInput"
    by (auto simp: transformDomain_def Let_def split: option.splits)
  from p1 p2 p3 p4 resolved_min_first [of mn categoryValues] resolved_max_last [of mx categoryValues]
  show ?thesis by (intro conjI)
qed

theorem transformDomain_returns_input_witness:
  "transformDomain example_isOrdinal example_strnum (example_view\<lparr>categories := None\<rparr>)
     (Number (Num 2)) Undefined = ReturnsInput \<and>
   transformDomain example_isOrdinal example_strnum example_view Undefined Null = ReturnsInput \<and>
   transformDomain example_isOrdinal example_strnum example_view_no_objects
     (Number (Num 2)) (Number (Num 2)) = ReturnsInput \<and>
   transformDomain example_isOrdinal example_strnum example_view (Number (Num 5)) Undefined
     = ReturnsInput \<and>
   resolved_max Undefined [Number (Num 1), Number (Num 2), Number (Num 3)] = Number (Num 3)"
proof -
  note t = transformDomain_returns_input [where isOrdinal = example_isOrdinal
      and strnum = example_strnum]
  have a: "transformDomain example_isOrdinal example_strnum (example_view\<lparr>categories := None\<rparr>)
     (Number (Num 2)) Undefined = ReturnsInput"
    using t [where dataView = "example_view\<lparr>categories := None\<rparr>" and mn = "Number (Num 2)"
        and mx = Undefined]
    by simp
  have b: "transformDomain example_isOrdinal example_strnum example_view Undefined Null = ReturnsInput"
    using t [where dataView = example_view and mn = Undefined and mx = Null]
    by simp
  have c: "transformDomain example_isOrdinal example_strnum example_view_no_objects
     (Number (Num 2)) (Number (Num 2)) = ReturnsInput"
    using t [where dataView = example_view_no_objects and mn = "Number (Num 2)"
        and mx = "Number (Num 2)" and c = "example_category\<lparr>objects := None\<rparr>"
        and rest = "[Some example_text_category]"]
    by (simp add: example_defs)
  have d: "transformDomain example_isOrdinal example_strnum example_view (Number (Num 5)) Undefined
     = ReturnsInput \<and>
     resolved_max Undefined [Number (Num 1), Number (Num 2), Number (Num 3)] = Number (Num 3)"
    using t [where dataView = example_view and mn = "Number (Num 5)"
        and mx = Undefined and c = example_category
        and rest = "[Some example_text_category]"
        and categoryValues = "[Number (Num 1), Number (Num 2), Number (Num 3)]"
        and categoryObjects = "[None, Some (), None]"]
    by (simp add: example_defs js_defs)
  from a b c d show ?thesis by (intro conjI) simp_all
qed

text \<open>
  C6 as stated fails: on an ordinal axis with a numeric bound the function returns
  \<open>undefined\<close>, not its input, although the metadata objects are absent and \<open>min > max\<close>.
\<close>

theorem transformDomain_returns_input_counterexample:
  "objects example_text_category = None \<and>
   js_gt example_strnum
     (resolved_min (Number (Num 3)) [String ''a'', String ''b'', String ''c''])
     (resolved_max (Number (Num 1)) [String ''a'', String ''b'', String ''c'']) \<and>
   transformDomain example_isOrdinal example_strnum example_view_ordinal
     (Number (Num 3)) (Number (Num 1)) = ReturnsUndefined"
  by (simp add: transformDomain_def example_defs js_defs)

text \<open>
  C8: whenever \<open>transformDomain\<close> filters, every value column of the returned data view
  is as long as the values of its category column.
\<close>

theorem transformDomain_column_lengths:
  assumes "transformDomain isOrdinal strnum dataView mn mx = ReturnsNew resultDataView"
  shows "\<exists>c0 rest newcategoryValues cols.
           categories resultDataView = Some (Some c0 # rest) \<and>
           DataViewCategoryColumn.values c0 = Some newcategoryValues \<and>
           DataViewCategorical.values resultDataView = Some cols \<and>
           cols \<noteq> [] \<and>
           (\<forall>col \<in> set cols. length (DataViewValueColumn.values col) = length newcategoryValues)"
proof -
  from transformDomain_new_explicit [OF assms] obtain c rest vals cv co ks where
    ne: "vals \<noteq> []" and
    h: "resultDataView = dataView\<lparr>DataViewCategorical.values :=
                   Some (map (\<lambda>col. col\<lparr>DataViewValueColumn.values :=
                                restrict_to Undefined ks (DataViewValueColumn.values col)\<rparr>) vals),
                 categories :=
                   Some (Some (c\<lparr>DataViewCategoryColumn.values := Some (restrict_to Undefined ks cv),
                                 objects := Some (restrict_to None ks co)\<rparr>) # rest)\<rparr>"
    by blast
  let ?c0 = "c\<lparr>DataViewCategoryColumn.values := Some (restrict_to Undefined ks cv),
                objects := Some (restrict_to None ks co)\<rparr>"
  let ?cols = "map (\<lambda>col. col\<lparr>DataViewValueColumn.values :=
                                restrict_to Undefined ks (DataViewValueColumn.values col)\<rparr>) vals"
  have 1: "categories resultDataView = Some (Some ?c0 # rest)" by (simp add: h)
  have 2: "DataViewCategoryColumn.values ?c0 = Some (restrict_to Undefined ks cv)" by simp
  have 3: "DataViewCategorical.values resultDataView = Some ?cols" by (simp add: h)
  have 4: "?cols \<noteq> []" using ne by simp
  have 5: "\<forall>col \<in> set ?cols. length (DataViewValueColumn.values col) = length (restrict_to Undefined ks cv)"
    by (auto simp: length_restrict_to)
  from 1 2 3 4 5 show ?thesis by blast
qed

theorem transformDomain_column_lengths_witness:
  "transformDomain example_isOrdinal example_strnum example_view (Number (Num 2)) Undefined =
     ReturnsNew
       (example_view\<lparr>DataViewCategorical.values :=
           Some [\<lparr>DataViewValueColumn.values = [Number (Num 20), Number (Num 30)]\<rparr>],
         categories :=
           Some [Some (example_category\<lparr>DataViewCategoryColumn.values :=
                         Some [Number (Num 2), Number (Num 3)],
                       objects := Some [Some (), None]\<rparr>),
                 Some example_text_category]\<rparr>) \<and>
   (\<exists>c0 rest newcategoryValues cols.
      categories (example_view\<lparr>DataViewCategorical.values :=
           Some [\<lparr>DataViewValueColumn.values = [Number (Num 20), Number (Num 30)]\<rparr>],
         categories :=
           Some [Some (example_category\<lparr>DataViewCategoryColumn.values :=
                         Some [Number (Num 2), Number (Num 3)],
                       objects := Some [Some (), None]\<rparr>),
                 Some example_text_category]\<rparr>) = Some (Some c0 # rest) \<and>
      DataViewCategoryColumn.values c0 = Some newcategoryValues \<and>
      DataViewCategorical.values (example_view\<lparr>DataViewCategorical.values :=
           Some [\<lparr>DataViewValueColumn.values = [Number (Num 20), Number (Num 30)]\<rparr>],
         categories :=
           Some [Some (example_category\<lparr>DataViewCategoryColumn.values :=
                         Some [Number (Num 2), Number (Num 3)],
                       objects := Some [Some (), None]\<rparr>),
                 Some example_text_category]\<rparr>) = Some cols \<and>
      cols \<noteq> [] \<and>
      (\<forall>col \<in> set cols. length (DataViewValueColumn.values col) = length newcategoryValues))"
proof -
  have r: "transformDomain example_isOrdinal example_strnum example_view (Number (Num 2)) Undefined =
     ReturnsNew
       (example_view\<lparr>DataViewCategorical.values :=
           Some [\<lparr>DataViewValueColumn.values = [Number (Num 20), Number (Num 30)]\<rparr>],
         categories :=
           Some [Some (example_category\<lparr>DataViewCategoryColumn.values :=
                         Some [Number (Num 2), Number (Num 3)],
                       objects := Some [Some (), None]\<rparr>),
                 Some example_text_category]\<rparr>)"
    by (simp add: transformDomain_path [of _ example_category "[Some example_text_category]" "[example_measure]"]
          example_defs js_defs upt_rec)
  from r transformDomain_column_lengths [OF r] show ?thesis by (intro conjI)
qed

text \<open>
  C10: a filtered result differs from the input only in the values and objects of
  \<open>categories[0]\<close> and in the values of each value column; every category column at an
  index from 1 on is the input's, unfiltered. In the instance the second column keeps
  its three values beside the two left in the first.
\<close>

theorem transformDomain_first_category_only:
  assumes "transformDomain isOrdinal strnum dataView mn mx = ReturnsNew resultDataView"
  shows "\<exists>c rest cols newcategoryValues newObjects newValues.
           categories dataView = Some (Some c # rest) \<and>
           DataViewCategorical.values dataView = Some cols \<and>
           length newValues = length cols \<and>
           resultDataView =
             dataView\<lparr>DataViewCategorical.values :=
                 Some (map2 (\<lambda>col v. col\<lparr>DataViewValueColumn.values := v\<rparr>) cols newValues),
               categories :=
                 Some (Some (c\<lparr>DataViewCategoryColumn.values := Some newcategoryValues,
                               objects := Some newObjects\<rparr>) # rest)\<rparr> \<and>
           (\<exists>c0. categories resultDataView = Some (Some c0 # rest)) \<and>
           (\<forall>i. 1 \<le> i \<and> i < length (Some c # rest) \<longrightarrow>
              map_option (\<lambda>cats. cats ! i) (categories resultDataView) = Some ((Some c # rest) ! i))"
proof -
  from transformDomain_new_explicit [OF assms] obtain c rest vals cv co ks where
    c: "categories dataView = Some (Some c # rest)" and
    v: "DataViewCategorical.values dataView = Some vals" and
    h: "resultDataView = dataView\<lparr>DataViewCategorical.values :=
                   Some (map (\<lambda>col. col\<lparr>DataViewValueColumn.values :=
                                restrict_to Undefined ks (DataViewValueColumn.values col)\<rparr>) vals),
                 categories :=
                   Some (Some (c\<lparr>DataViewCategoryColumn.values := Some (restrict_to Undefined ks cv),
                                 objects := Some (restrict_to None ks co)\<rparr>) # rest)\<rparr>"
    by blast
  let ?nv = "map (\<lambda>col. restrict_to Undefined ks (DataViewValueColumn.values col)) vals"
  have m: "map (\<lambda>col. col\<lparr>DataViewValueColumn.values :=
                                restrict_to Undefined ks (DataViewValueColumn.values col)\<rparr>) vals
         = map2 (\<lambda>col v. col\<lparr>DataViewValueColumn.values := v\<rparr>) vals ?nv"
    by (rule nth_equalityI) simp_all
  have 1: "length ?nv = length vals" by simp
  have 2: "resultDataView =
             dataView\<lparr>DataViewCategorical.values :=
                 Some (map2 (\<lambda>col v. col\<lparr>DataViewValueColumn.values := v\<rparr>) vals ?nv),
               categories :=
                 Some (Some (c\<lparr>DataViewCategoryColumn.values := Some (restrict_to Undefined ks cv),
                               objects := Some (restrict_to None ks co)\<rparr>) # rest)\<rparr>"
    unfolding h m by (rule refl)
  have 3: "\<exists>c0. categories resultDataView = Some (Some c0 # rest)" by (simp add: h)
  have 4: "\<forall>i. 1 \<le> i \<and> i < length (Some c # rest) \<longrightarrow>
              map_option (\<lambda>cats. cats ! i) (categories resultDataView) = Some ((Some c # rest) ! i)"
    by (auto simp: h nth_Cons split: nat.splits)
  from c v 1 2 3 4 show ?thesis by blast
qed

theorem transformDomain_first_category_only_witness:
  "transformDomain example_isOrdinal example_strnum example_view (Number (Num 2)) Undefined =
     ReturnsNew
       (example_view\<lparr>DataViewCategorical.values :=
           Some [\<lparr>DataViewValueColumn.values = [Number (Num 20), Number (Num 30)]\<rparr>],
         categories :=
           Some [Some (example_category\<lparr>DataViewCategoryColumn.values :=
                         Some [Number (Num 2), Number (Num 3)],
                       objects := Some [Some (), None]\<rparr>),
                 Some example_text_category]\<rparr>) \<and>
   map_option (\<lambda>cats. cats ! 1)
     (categories (example_view\<lparr>DataViewCategorical.values :=
           Some [\<lparr>DataViewValueColumn.values = [Number (Num 20), Number (Num 30)]\<rparr>],
         categories :=
           Some [Some (example_category\<lparr>DataViewCategoryColumn.values :=
                         Some [Number (Num 2), Number (Num 3)],
                       objects := Some [Some (), None]\<rparr>),
                 Some example_text_category]\<rparr>)) = Some (Some example_text_category) \<and>
   DataViewCategoryColumn.values example_text_category = Some [String ''a'', String ''b'', String ''c'']"
proof -
  have r: "transformDomain example_isOrdinal example_strnum example_view (Number (Num 2)) Undefined =
     ReturnsNew
       (example_view\<lparr>DataViewCategorical.values :=
           Some [\<lparr>DataViewValueColumn.values = [Number (Num 20), Number (Num 30)]\<rparr>],
         categories :=
           Some [Some (example_category\<lparr>DataViewCategoryColumn.values :=
                         Some [Number (Num 2), Number (Num 3)],
                       objects := Some [Some (), None]\<rparr>),
                 Some example_text_category]\<rparr>)"
    by (simp add: transformDomain_path [of _ example_category "[Some example_text_category]" "[example_measure]"]
          example_defs js_defs upt_rec)
  from transformDomain_first_category_only [OF r] obtain c rest where
    c: "categories example_view = Some (Some c # rest)" and
    a: "\<forall>i. 1 \<le> i \<and> i < length (Some c # rest) \<longrightarrow>
              map_option (\<lambda>cats. cats ! i)
     (categories (example_view\<lparr>DataViewCategorical.values :=
           Some [\<lparr>DataViewValueColumn.values = [Number (Num 20), Number (Num 30)]\<rparr>],
         categories :=
           Some [Some (example_category\<lparr>DataViewCategoryColumn.values :=
                         Some [Number (Num 2), Number (Num 3)],
                       objects := Some [Some (), None]\<rparr>),
                 Some example_text_category]\<rparr>)) = Some ((Some c # rest) ! i)"
    by blast
  from c have cr: "Some c # rest = [Some example_category, Some example_text_category]"
    by (simp add: example_view_def)
  from a [unfolded cr] have "map_option (\<lambda>cats. cats ! 1)
     (categories (example_view\<lparr>DataViewCategorical.values :=
           Some [\<lparr>DataViewValueColumn.values = [Number (Num 20), Number (Num 30)]\<rparr>],
         categories :=
           Some [Some (example_category\<lparr>DataViewCategoryColumn.values :=
                         Some [Number (Num 2), Number (Num 3)],
                       objects := Some [Some (), None]\<rparr>),
                 Some example_text_category]\<rparr>)) = Some ([Some example_category, Some example_text_category] ! 1)"
    by (elim allE [of _ 1]) simp
  with r show ?thesis by (simp add: example_text_category_def)
qed


section \<open>Properties of the selection opacity\<close>

lemma length_update_at: "length (update_at f g p) = length g"
  by (cases p) (simp add: update_at_def)

lemma update_at_beyond: "\<not> a < length g \<Longrightarrow> update_at f g (a, b) = g"
  by (simp add: update_at_def list_update_beyond)

lemma length_nth_update_at: "length (update_at f g p ! i) = length (g ! i)"
proof -
  obtain a b where p: "p = (a, b)" by (cases p)
  show ?thesis
  proof (cases "a < length g")
    case True
    then show ?thesis unfolding p update_at_def
      by (cases "i = a") simp_all
  next
    case False
    then show ?thesis unfolding p by (simp add: update_at_beyond)
  qed
qed

lemma nth_update_at:
  assumes "i < length g" "j < length (g ! i)"
  shows "update_at f g p ! i ! j = (if p = (i, j) then f (g ! i ! j) else g ! i ! j)"
proof -
  obtain a b where p: "p = (a, b)" by (cases p)
  show ?thesis
  proof (cases "a = i")
    case True
    then show ?thesis using assms unfolding p update_at_def
      by (cases "b = j") simp_all
  next
    case False
    then show ?thesis unfolding p update_at_def by simp
  qed
qed

lemma foldl_update_at_shape:
  "length (foldl (update_at f) g sel) = length g \<and>
   length (foldl (update_at f) g sel ! i) = length (g ! i)"
  by (induction sel rule: rev_induct) (simp_all add: length_update_at length_nth_update_at)

lemma foldl_update_at_nth:
  assumes idem: "\<And>e. f (f e) = f e" and i: "i < length g" and j: "j < length (g ! i)"
  shows "foldl (update_at f) g sel ! i ! j = (if (i, j) \<in> set sel then f (g ! i ! j) else g ! i ! j)"
proof (induction sel rule: rev_induct)
  case Nil
  then show ?case by simp
next
  case (snoc p sel)
  have "foldl (update_at f) g (sel @ [p]) ! i ! j =
        update_at f (foldl (update_at f) g sel) p ! i ! j" by simp
  also have "\<dots> = (if p = (i, j) then f (foldl (update_at f) g sel ! i ! j)
                    else foldl (update_at f) g sel ! i ! j)"
    using i j by (intro nth_update_at) (simp_all add: foldl_update_at_shape)
  finally show ?case using snoc idem by auto
qed

lemma set_selectAll:
  "(i, j) \<in> set (selectAll matches selector g) \<longleftrightarrow>
   i < length g \<and> j < length (g ! i) \<and> matches selector (Element.more (g ! i ! j))"
  by (auto simp: selectAll_def)

lemma set_filter_selection:
  "(i, j) \<in> set (filter_selection keep g sel) \<longleftrightarrow> (i, j) \<in> set sel \<and> keep (datum (g ! i ! j))"
  by (simp add: filter_selection_def)


text \<open>
  C7, as the code has it: on the rendered columns that match the selector,
  \<open>setChosenColumnOpacity\<close> schedules the transition to opacity 0.4 on every column
  whose category index is not the selected index and, when \<open>lastColumnIndex\<close> is
  defined, is \<open>lastColumnIndex\<close> (on every column but the selected ones when it is
  undefined); it sets opacity 1.0, with no transition, on every column whose category
  index is the selected index; it leaves every other element as it is.
\<close>

theorem setChosenColumnOpacity_effect:
  assumes i: "i < length mainGraphicsContext"
    and j: "j < length (mainGraphicsContext ! i)"
    and e: "e = mainGraphicsContext ! i ! j"
    and r: "result = setChosenColumnOpacity matches mainGraphicsContext columnGroupSelector
                       selectedColumnIndex lastColumnIndex"
  shows "length result = length mainGraphicsContext \<and>
         length (result ! i) = length (mainGraphicsContext ! i) \<and>
         result ! i ! j =
           (if matches (RectName @ columnGroupSelector) (Element.more e) \<and>
               categoryIndex (datum e) = selectedColumnIndex
            then e\<lparr>fill_opacity := Some DefaultOpacity\<rparr>
            else if matches (RectName @ columnGroupSelector) (Element.more e) \<and>
                    categoryIndex (datum e) \<noteq> selectedColumnIndex \<and>
                    (lastColumnIndex = None \<or> Some (categoryIndex (datum e)) = lastColumnIndex)
            then e\<lparr>transition_to := Some DimmedOpacity\<rparr>
            else e)"
proof -
  let ?sel = "RectName @ columnGroupSelector"
  let ?dimmed = "filter_selection
                     (\<lambda>dataPoint. categoryIndex dataPoint \<noteq> selectedColumnIndex
                        \<and> (lastColumnIndex = None \<or> Some (categoryIndex dataPoint) = lastColumnIndex))
                     mainGraphicsContext
                     (selectAll matches ?sel mainGraphicsContext)"
  let ?scene = "transition_style_fill_opacity DimmedOpacity ?dimmed mainGraphicsContext"
  let ?chosen = "filter_selection (\<lambda>dataPoint. categoryIndex dataPoint = selectedColumnIndex)
                     ?scene (selectAll matches ?sel ?scene)"
  have res: "result = style_fill_opacity DefaultOpacity ?chosen ?scene"
    unfolding r setChosenColumnOpacity_def Let_def by (rule refl)
  have sh: "length ?scene = length mainGraphicsContext"
           "length (?scene ! i) = length (mainGraphicsContext ! i)"
    by (simp_all add: transition_style_fill_opacity_def foldl_update_at_shape)
  have sc: "?scene ! i ! j =
      (if (i, j) \<in> set ?dimmed then e\<lparr>transition_to := Some DimmedOpacity\<rparr> else e)"
    unfolding transition_style_fill_opacity_def e
    using i j by (intro foldl_update_at_nth) simp_all
  have dm: "(i, j) \<in> set ?dimmed \<longleftrightarrow>
      matches ?sel (Element.more e) \<and> categoryIndex (datum e) \<noteq> selectedColumnIndex \<and>
      (lastColumnIndex = None \<or> Some (categoryIndex (datum e)) = lastColumnIndex)"
    using i j by (simp add: set_filter_selection set_selectAll e)
  have keep: "Element.more (?scene ! i ! j) = Element.more e" "datum (?scene ! i ! j) = datum e"
    by (simp_all add: sc)
  have ch: "(i, j) \<in> set ?chosen \<longleftrightarrow>
      matches ?sel (Element.more e) \<and> categoryIndex (datum e) = selectedColumnIndex"
    using i j sh keep by (simp add: set_filter_selection set_selectAll)
  have rs: "result ! i ! j =
      (if (i, j) \<in> set ?chosen then (?scene ! i ! j)\<lparr>fill_opacity := Some DefaultOpacity\<rparr>
       else ?scene ! i ! j)"
    unfolding res style_fill_opacity_def
    using i j sh by (intro foldl_update_at_nth) simp_all
  have l: "length result = length mainGraphicsContext"
          "length (result ! i) = length (mainGraphicsContext ! i)"
    using sh by (simp_all add: res style_fill_opacity_def foldl_update_at_shape)
  have "result ! i ! j =
           (if matches ?sel (Element.more e) \<and> categoryIndex (datum e) = selectedColumnIndex
            then e\<lparr>fill_opacity := Some DefaultOpacity\<rparr>
            else if matches ?sel (Element.more e) \<and>
                    categoryIndex (datum e) \<noteq> selectedColumnIndex \<and>
                    (lastColumnIndex = None \<or> Some (categoryIndex (datum e)) = lastColumnIndex)
            then e\<lparr>transition_to := Some DimmedOpacity\<rparr>
            else e)"
    unfolding rs ch sc dm by auto
  with l show ?thesis by (intro conjI)
qed

lemmas scene_defs = setChosenColumnOpacity_def selectAll_def filter_selection_def update_at_def
  style_fill_opacity_def transition_style_fill_opacity_def example_scene_def example_column_def
  example_matches_def


theorem setChosenColumnOpacity_effect_witness:
  "setChosenColumnOpacity example_matches example_scene [] 0 (Some 1) ! 0 ! 0 =
     (example_column 0)\<lparr>fill_opacity := Some DefaultOpacity\<rparr> \<and>
   setChosenColumnOpacity example_matches example_scene [] 0 (Some 1) ! 0 ! 1 =
     (example_column 1)\<lparr>transition_to := Some DimmedOpacity\<rparr> \<and>
   setChosenColumnOpacity example_matches example_scene [] 0 (Some 1) ! 0 ! 2 = example_column 2 \<and>
   setChosenColumnOpacity example_matches example_scene [] 0 None ! 0 ! 2 =
     (example_column 2)\<lparr>transition_to := Some DimmedOpacity\<rparr>"
  using setChosenColumnOpacity_effect [of 0 example_scene 0 "example_column 0" _ example_matches "[]" 0 "Some 1", OF _ _ _ refl]
    setChosenColumnOpacity_effect [of 0 example_scene 1 "example_column 1" _ example_matches "[]" 0 "Some 1", OF _ _ _ refl]
    setChosenColumnOpacity_effect [of 0 example_scene 2 "example_column 2" _ example_matches "[]" 0 "Some 1", OF _ _ _ refl]
    setChosenColumnOpacity_effect [of 0 example_scene 2 "example_column 2" _ example_matches "[]" 0 None, OF _ _ _ refl]
  by (simp add: example_scene_def example_column_def example_matches_def)

text \<open>
  C7 as stated fails: with column 0 selected and column 1 the last one, column 2, which
  is neither, is not dimmed, and column 1, the last one, is.
\<close>

theorem setChosenColumnOpacity_effect_counterexample:
  "transition_to (setChosenColumnOpacity example_matches example_scene [] 0 (Some 1) ! 0 ! 2) = None \<and>
   fill_opacity (setChosenColumnOpacity example_matches example_scene [] 0 (Some 1) ! 0 ! 2) = None \<and>
   transition_to (setChosenColumnOpacity example_matches example_scene [] 0 (Some 1) ! 0 ! 1)
     = Some DimmedOpacity"
  by (simp add: scene_defs)



section \<open>Properties of the range filter on the heap\<close>

lemma keepsI:
  assumes "\<And>h x h'. K h \<Longrightarrow> m h = (Ok x, h') \<Longrightarrow> K h' \<and> Q x"
    and "\<And>h h'. K h \<Longrightarrow> m h = (TypeError, h') \<Longrightarrow> K h'"
    and "\<And>h h'. K h \<Longrightarrow> m h = (Timeout, h') \<Longrightarrow> K h'"
  shows "keeps K m Q"
  unfolding keeps_def
proof (intro allI impI)
  fix h assume k: "K h"
  obtain r h' where m: "m h = (r, h')" by (cases "m h")
  show "case m h of (Ok x, h') \<Rightarrow> K h' \<and> Q x | (TypeError, h') \<Rightarrow> K h' | (Timeout, h') \<Rightarrow> K h'"
    using assms [OF k] m by (cases r) auto
qed

lemma keeps_OkD: "keeps K m Q \<Longrightarrow> K h \<Longrightarrow> m h = (Ok x, h') \<Longrightarrow> K h' \<and> Q x"
  by (auto simp: keeps_def)

lemma keeps_TypeErrorD: "keeps K m Q \<Longrightarrow> K h \<Longrightarrow> m h = (TypeError, h') \<Longrightarrow> K h'"
  by (auto simp: keeps_def)

lemma keeps_TimeoutD: "keeps K m Q \<Longrightarrow> K h \<Longrightarrow> m h = (Timeout, h') \<Longrightarrow> K h'"
  by (auto simp: keeps_def)

lemma keeps_ret: "Q x \<Longrightarrow> keeps K (ret x) Q"
  by (simp add: keeps_def ret_def)

lemma keeps_bind:
  assumes m: "keeps K m Q" and f: "\<And>x. Q x \<Longrightarrow> keeps K (f x) R"
  shows "keeps K (bind_comp m f) R"
proof (rule keepsI)
  fix h x h' assume k: "K h" and b: "bind_comp m f h = (Ok x, h')"
  obtain r h1 where mh: "m h = (r, h1)" by (cases "m h")
  with b obtain y where r: "r = Ok y" and fy: "f y h1 = (Ok x, h')"
    by (cases r) (auto simp: bind_comp_def)
  from keeps_OkD [OF m k mh [unfolded r]] have "K h1" "Q y" by simp_all
  with f [of y] fy show "K h' \<and> R x" by (auto dest: keeps_OkD)
next
  fix h h' assume k: "K h" and b: "bind_comp m f h = (TypeError, h')"
  obtain r h1 where mh: "m h = (r, h1)" by (cases "m h")
  show "K h'"
  proof (cases r)
    case (Ok y)
    with b mh have fy: "f y h1 = (TypeError, h')" by (simp add: bind_comp_def)
    from keeps_OkD [OF m k mh [unfolded Ok]] have "K h1" "Q y" by simp_all
    with f [of y] fy show ?thesis by (auto dest: keeps_TypeErrorD)
  next
    case TypeError
    with b mh have "h' = h1" by (simp add: bind_comp_def)
    with keeps_TypeErrorD [OF m k mh [unfolded TypeError]] show ?thesis by simp
  next
    case Timeout
    with b mh show ?thesis by (simp add: bind_comp_def)
  qed
next
  fix h h' assume k: "K h" and b: "bind_comp m f h = (Timeout, h')"
  obtain r h1 where mh: "m h = (r, h1)" by (cases "m h")
  show "K h'"
  proof (cases r)
    case (Ok y)
    with b mh have fy: "f y h1 = (Timeout, h')" by (simp add: bind_comp_def)
    from keeps_OkD [OF m k mh [unfolded Ok]] have "K h1" "Q y" by simp_all
    with f [of y] fy show ?thesis by (auto dest: keeps_TimeoutD)
  next
    case TypeError
    with b mh show ?thesis by (simp add: bind_comp_def)
  next
    case Timeout
    with b mh have "h' = h1" by (simp add: bind_comp_def)
    with keeps_TimeoutD [OF m k mh [unfolded Timeout]] show ?thesis by simp
  qed
qed

lemma keeps_if:
  "(c \<Longrightarrow> keeps K a Q) \<Longrightarrow> (\<not> c \<Longrightarrow> keeps K b Q) \<Longrightarrow> keeps K (if c then a else b) Q"
  by simp

lemma keeps_weaken:
  assumes "keeps K m Q" and "\<And>x. Q x \<Longrightarrow> Q' x"
  shows "keeps K m Q'"
proof (rule keepsI)
  fix h x h' assume "K h" "m h = (Ok x, h')"
  with assms(1) have "K h' \<and> Q x" by (rule keeps_OkD)
  with assms(2) show "K h' \<and> Q' x" by simp
next
  fix h h' assume "K h" "m h = (TypeError, h')"
  with assms(1) show "K h'" by (rule keeps_TypeErrorD)
next
  fix h h' assume "K h" "m h = (Timeout, h')"
  with assms(1) show "K h'" by (rule keeps_TimeoutD)
qed

lemma keeps_for_loop:
  assumes b: "keeps K bound Qb" and body: "\<And>i. keeps K (body i) Qi"
  shows "keeps K (for_loop fuel strnum bound body i) (\<lambda>u. True)"
proof (induction fuel arbitrary: i)
  case 0
  then show ?case by (simp add: keeps_def)
next
  case (Suc fuel)
  have step: "K h'" if k: "K h" and l: "for_loop (Suc fuel) strnum bound body i h = (r, h')"
    for h r h'
  proof -
    obtain rb h1 where bh: "bound h = (rb, h1)" by (cases "bound h")
    show ?thesis
    proof (cases rb)
      case (Ok len)
      from keeps_OkD [OF b k bh [unfolded Ok]] have k1: "K h1" by simp
      show ?thesis
      proof (cases "js_less strnum (Number (Num (real i))) (prim_of len) = Some True")
        case True
        obtain r2 h2 where bd: "body i h1 = (r2, h2)" by (cases "body i h1")
        show ?thesis
        proof (cases r2)
          case ok2: (Ok u)
          with l bh Ok True bd have rest: "for_loop fuel strnum bound body (incr i) h2 = (r, h')"
            by simp
          from keeps_OkD [OF body k1 bd [unfolded ok2]] have k2: "K h2" by simp
          from Suc [of "incr i"] k2 rest show ?thesis
            by (cases r) (auto dest: keeps_OkD keeps_TypeErrorD keeps_TimeoutD)
        next
          case TypeError
          with l bh Ok True bd have "h' = h2" by simp
          with keeps_TypeErrorD [OF body k1 bd [unfolded TypeError]] show ?thesis by simp
        next
          case Timeout
          with l bh Ok True bd have "h' = h2" by simp
          with keeps_TimeoutD [OF body k1 bd [unfolded Timeout]] show ?thesis by simp
        qed
      next
        case False
        with l bh Ok k1 show ?thesis by simp
      qed
    next
      case TypeError
      with l bh have "h' = h1" by simp
      with keeps_TypeErrorD [OF b k bh [unfolded TypeError]] show ?thesis by simp
    next
      case Timeout
      with l bh have "h' = h1" by simp
      with keeps_TimeoutD [OF b k bh [unfolded Timeout]] show ?thesis by simp
    qed
  qed
  show ?case
    by (rule keepsI) (auto dest: step)
qed

lemma keeps_read: "keeps K (read_prop v k) (\<lambda>x. True)"
  by (auto simp: keeps_def read_prop_def split: hval.splits)

lemma keeps_ask: "keeps K (ask f) (\<lambda>x. True)"
  by (simp add: keeps_def ask_def)

lemma fresh_val_fresh_ref: "fresh_val n0 nv x \<Longrightarrow> fresh_ref n0 x"
  by (auto simp: fresh_val_def fresh_ref_def split: hval.splits)

lemma fresh_val_Ref [simp]: "fresh_val n0 nv (Ref a) \<longleftrightarrow> n0 \<le> a \<and> a \<noteq> nv"
  by (simp add: fresh_val_def)

lemma fresh_val_Prim [simp]: "fresh_val n0 nv (Prim p)"
  by (simp add: fresh_val_def)

lemma length_set_prop [simp]: "length (set_prop a k v h) = length h"
  by (simp add: set_prop_def)

lemma nth_set_prop_neq [simp]: "b \<noteq> a \<Longrightarrow> set_prop a k v h ! b = h ! b"
  by (simp add: set_prop_def)

lemma proto_set_prop [simp]: "proto (set_prop a k v h ! b) = proto (h ! b)"
  by (cases "a < length h"; cases "b = a") (simp_all add: set_prop_def list_update_beyond)

lemma props_set_prop_eq [simp]:
  "a < length h \<Longrightarrow> props (set_prop a k v h ! a) = (props (h ! a))(k \<mapsto> v)"
  by (simp add: set_prop_def)

lemma prefix_set_prop:
  assumes "prefix h0 h" "length h0 \<le> a"
  shows "prefix h0 (set_prop a k v h)"
proof -
  from assms(1) obtain zs where h: "h = h0 @ zs" by (auto simp: prefix_def)
  have "set_prop a k v h = h0 @ zs[a - length h0 := (h ! a)\<lparr>props := (props (h ! a))(k \<mapsto> v)\<rparr>]"
    using assms(2) unfolding set_prop_def h by (simp add: list_update_append)
  then show ?thesis by simp
qed

lemma prefix_nth: "prefix h0 h \<Longrightarrow> a < length h0 \<Longrightarrow> h ! a = h0 ! a"
  by (auto simp: prefix_def nth_append)

lemma owned_set_prop:
  assumes o: "owned n0 h" and x: "k \<in> special_keys \<longrightarrow> fresh_ref n0 x"
  shows "owned n0 (set_prop a k x h)"
  unfolding owned_def
proof (intro allI impI, elim conjE)
  fix c k' b
  assume c: "n0 \<le> c" "c < length (set_prop a k x h)" and k': "k' \<in> special_keys"
    and p: "props (set_prop a k x h ! c) k' = Some (Ref b)"
  show "n0 \<le> b"
  proof (cases "c = a \<and> k' = k")
    case True
    with c p have "x = Ref b" by simp
    with x k' True show ?thesis by (simp add: fresh_ref_def)
  next
    case False
    then have "props (h ! c) k' = Some (Ref b)"
      using p c by (cases "c = a") auto
    with o c k' show ?thesis unfolding owned_def by auto
  qed
qed

lemma owned_snoc:
  assumes o: "owned n0 h" and ob: "\<forall>k \<in> special_keys. props ob k = None"
  shows "owned n0 (h @ [ob])"
  unfolding owned_def
proof (intro allI impI, elim conjE)
  fix c k b
  assume c: "n0 \<le> c" "c < length (h @ [ob])" and k: "k \<in> special_keys"
    and p: "props ((h @ [ob]) ! c) k = Some (Ref b)"
  show "n0 \<le> b"
  proof (cases "c < length h")
    case True
    with p have "props (h ! c) k = Some (Ref b)" by (simp add: nth_append)
    with o c True k show ?thesis unfolding owned_def by auto
  next
    case False
    with c have "c = length h" by simp
    with p ob k show ?thesis by simp
  qed
qed

lemma frame_set_prop:
  assumes f: "frame_inv h0 nv h" and a: "length h0 \<le> a" "a \<noteq> nv"
    and x: "k \<in> special_keys \<longrightarrow> fresh_ref (length h0) x"
  shows "frame_inv h0 nv (set_prop a k x h)"
  using f a x
  unfolding frame_inv_def inv_newValues_def
  by (auto intro: prefix_set_prop owned_set_prop)

lemma frame_set_prop_newValues:
  assumes f: "frame_inv h0 nv h" and k: "k \<notin> special_keys" and x: "fresh_val (length h0) nv x"
  shows "frame_inv h0 nv (set_prop nv k x h)"
proof -
  from f have p: "prefix h0 h" and o: "owned (length h0) h" and i: "inv_newValues (length h0) nv h"
    by (auto simp: frame_inv_def)
  from i have nv: "length h0 \<le> nv" "nv < length h" by (auto simp: inv_newValues_def)
  have 1: "prefix h0 (set_prop nv k x h)" using p nv by (intro prefix_set_prop)
  have 2: "owned (length h0) (set_prop nv k x h)"
    using owned_set_prop [OF o, of k x nv] k by simp
  have 3: "inv_newValues (length h0) nv (set_prop nv k x h)"
    using i x unfolding inv_newValues_def by (auto simp: fresh_val_def split: if_splits)
  from 1 2 3 show ?thesis by (simp add: frame_inv_def)
qed

lemma frame_snoc:
  assumes f: "frame_inv h0 nv h" and ob: "\<forall>k \<in> special_keys. props ob k = None"
  shows "frame_inv h0 nv (h @ [ob])"
  using f ob unfolding frame_inv_def inv_newValues_def
  by (auto intro: owned_snoc simp: nth_append)

lemma frame_length: "frame_inv h0 nv h \<Longrightarrow> length h0 \<le> length h \<and> nv < length h"
  by (auto simp: frame_inv_def inv_newValues_def prefix_length_le)

lemma keeps_push_frame:
  assumes "fresh_val (length h0) nv v"
  shows "keeps (frame_inv h0 nv) (push v x) (\<lambda>u. True)"
proof (cases v)
  case (Prim p)
  then show ?thesis by (simp add: keeps_def push_def)
next
  case (Ref a)
  with assms have a: "length h0 \<le> a" "a \<noteq> nv" by simp_all
  have "frame_inv h0 nv (set_prop a (Name ''length'') y (set_prop a (Index n) x h))"
    if "frame_inv h0 nv h" for h y n
    using that a by (intro frame_set_prop) (simp_all add: special_keys_def)
  then show ?thesis using Ref by (simp add: keeps_def push_def)
qed

lemma keeps_push_newValues:
  assumes "fresh_val (length h0) nv x"
  shows "keeps (frame_inv h0 nv) (push (Ref nv) x) (\<lambda>u. True)"
proof -
  have "frame_inv h0 nv (set_prop nv (Name ''length'') (Prim y) (set_prop nv (Index n) x h))"
    if "frame_inv h0 nv h" for h y n
    using that assms by (intro frame_set_prop_newValues) (simp_all add: special_keys_def)
  then show ?thesis by (simp add: keeps_def push_def)
qed

lemma keeps_write_frame:
  assumes "fresh_val (length h0) nv v" and "k \<in> special_keys \<longrightarrow> fresh_ref (length h0) x"
  shows "keeps (frame_inv h0 nv) (write_prop v k x) (\<lambda>u. True)"
proof (cases v)
  case (Prim p)
  then show ?thesis by (simp add: keeps_def write_prop_def)
next
  case (Ref a)
  with assms(1) have a: "length h0 \<le> a" "a \<noteq> nv" by simp_all
  have "frame_inv h0 nv (set_prop a k x h)" if "frame_inv h0 nv h" for h
    using that a assms(2) by (intro frame_set_prop)
  then show ?thesis using Ref by (simp add: keeps_def write_prop_def)
qed

lemma keeps_alloc_frame:
  assumes "\<forall>k \<in> special_keys. props ob k = None"
  shows "keeps (frame_inv h0 nv) (alloc ob) (\<lambda>a. length h0 \<le> a \<and> a \<noteq> nv)"
  unfolding keeps_def alloc_def
  using assms by (auto intro: frame_snoc dest: frame_length)

lemma keeps_new_array_frame:
  "keeps (frame_inv h0 nv) new_array (\<lambda>a. length h0 \<le> a \<and> a \<noteq> nv)"
  unfolding new_array_def by (rule keeps_alloc_frame) (simp add: special_keys_def)

lemma keeps_inherit_frame:
  "keeps (frame_inv h0 nv) (inherit v) (\<lambda>a. length h0 \<le> a \<and> a \<noteq> nv)"
  unfolding inherit_def by (rule keeps_alloc_frame) simp

lemma keeps_read_newValues:
  "keeps (frame_inv h0 nv) (read_prop (Ref nv) k) (fresh_val (length h0) nv)"
proof -
  have "fresh_val (length h0) nv (get h nv k)" if "frame_inv h0 nv h" for h
  proof -
    from that have i: "inv_newValues (length h0) nv h" by (simp add: frame_inv_def)
    show ?thesis
    proof (cases "props (h ! nv) k")
      case None
      with i show ?thesis by (simp add: get.simps [of h nv] inv_newValues_def)
    next
      case (Some v)
      with i show ?thesis
        by (cases v) (auto simp: get.simps [of h nv] inv_newValues_def)
    qed
  qed
  then show ?thesis by (simp add: keeps_def read_prop_def)
qed

lemma frame_prefix: "frame_inv h0 nv h \<Longrightarrow> prefix h0 h"
  by (simp add: frame_inv_def)

lemma get_prefix:
  assumes p: "prefix h0 h"
  shows "a < length h0 \<Longrightarrow> get h a k = get h0 a k"
proof (induction a rule: less_induct)
  case (less a)
  from p less.prems have eq: "h ! a = h0 ! a" and al: "a < length h"
    using prefix_length_le [OF p] by (auto simp: prefix_nth)
  show ?case
  proof (cases "props (h0 ! a) k")
    case (Some v)
    then show ?thesis using eq al less.prems by (simp add: get.simps [of _ a])
  next
    case None
    show ?thesis
    proof (cases "proto (h0 ! a)")
      case nopr: None
      then show ?thesis using None eq al less.prems by (simp add: get.simps [of _ a])
    next
      case (Some q)
      show ?thesis
      proof (cases "q < a")
        case True
        with less.IH [of q] less.prems have "get h q k = get h0 q k" by simp
        then show ?thesis using None Some True eq al less.prems by (simp add: get.simps [of _ a])
      next
        case False
        then show ?thesis using None Some eq al less.prems by (simp add: get.simps [of _ a])
      qed
    qed
  qed
qed

lemma ensuresI:
  assumes "\<And>h x h'. K h \<Longrightarrow> m h = (Ok x, h') \<Longrightarrow> K h' \<and> R x h'"
    and "\<And>h h'. K h \<Longrightarrow> m h = (TypeError, h') \<Longrightarrow> K h'"
    and "\<And>h h'. K h \<Longrightarrow> m h = (Timeout, h') \<Longrightarrow> K h'"
  shows "ensures K m R"
  unfolding ensures_def
proof (intro allI impI)
  fix h assume k: "K h"
  obtain r h' where m: "m h = (r, h')" by (cases "m h")
  show "case m h of (Ok x, h') \<Rightarrow> K h' \<and> R x h' | (TypeError, h') \<Rightarrow> K h'
        | (Timeout, h') \<Rightarrow> K h'"
    using assms [OF k] m by (cases r) auto
qed

lemma ensures_OkD: "ensures K m R \<Longrightarrow> K h \<Longrightarrow> m h = (Ok x, h') \<Longrightarrow> K h' \<and> R x h'"
  by (auto simp: ensures_def)

lemma ensures_TypeErrorD: "ensures K m R \<Longrightarrow> K h \<Longrightarrow> m h = (TypeError, h') \<Longrightarrow> K h'"
  by (auto simp: ensures_def)

lemma ensures_TimeoutD: "ensures K m R \<Longrightarrow> K h \<Longrightarrow> m h = (Timeout, h') \<Longrightarrow> K h'"
  by (auto simp: ensures_def)

lemma ensures_ret: "(\<And>h. K h \<Longrightarrow> R x h) \<Longrightarrow> ensures K (ret x) R"
  by (simp add: ensures_def ret_def)

lemma ensures_if:
  "(c \<Longrightarrow> ensures K a R) \<Longrightarrow> (\<not> c \<Longrightarrow> ensures K b R) \<Longrightarrow> ensures K (if c then a else b) R"
  by simp

lemma ensures_bind:
  assumes m: "keeps K m Q" and f: "\<And>x. Q x \<Longrightarrow> ensures K (f x) R"
  shows "ensures K (bind_comp m f) R"
proof (rule ensuresI)
  fix h x h' assume k: "K h" and b: "bind_comp m f h = (Ok x, h')"
  obtain r h1 where mh: "m h = (r, h1)" by (cases "m h")
  with b obtain y where r: "r = Ok y" and fy: "f y h1 = (Ok x, h')"
    by (cases r) (auto simp: bind_comp_def)
  from keeps_OkD [OF m k mh [unfolded r]] have "K h1" "Q y" by simp_all
  with f [of y] fy show "K h' \<and> R x h'" by (auto dest: ensures_OkD)
next
  fix h h' assume k: "K h" and b: "bind_comp m f h = (TypeError, h')"
  obtain r h1 where mh: "m h = (r, h1)" by (cases "m h")
  show "K h'"
  proof (cases r)
    case (Ok y)
    with b mh have fy: "f y h1 = (TypeError, h')" by (simp add: bind_comp_def)
    from keeps_OkD [OF m k mh [unfolded Ok]] have "K h1" "Q y" by simp_all
    with f [of y] fy show ?thesis by (auto dest: ensures_TypeErrorD)
  next
    case TypeError
    with b mh have "h' = h1" by (simp add: bind_comp_def)
    with keeps_TypeErrorD [OF m k mh [unfolded TypeError]] show ?thesis by simp
  next
    case Timeout
    with b mh show ?thesis by (simp add: bind_comp_def)
  qed
next
  fix h h' assume k: "K h" and b: "bind_comp m f h = (Timeout, h')"
  obtain r h1 where mh: "m h = (r, h1)" by (cases "m h")
  show "K h'"
  proof (cases r)
    case (Ok y)
    with b mh have fy: "f y h1 = (Timeout, h')" by (simp add: bind_comp_def)
    from keeps_OkD [OF m k mh [unfolded Ok]] have "K h1" "Q y" by simp_all
    with f [of y] fy show ?thesis by (auto dest: ensures_TimeoutD)
  next
    case TypeError
    with b mh show ?thesis by (simp add: bind_comp_def)
  next
    case Timeout
    with b mh have "h' = h1" by (simp add: bind_comp_def)
    with keeps_TimeoutD [OF m k mh [unfolded Timeout]] show ?thesis by simp
  qed
qed

lemma keeps_conj:
  assumes a: "keeps K m Q" and b: "keeps K' m Q'"
  shows "keeps (\<lambda>h. K h \<and> K' h) m (\<lambda>x. Q x \<and> Q' x)"
proof (rule keepsI)
  fix h x h' assume "K h \<and> K' h" "m h = (Ok x, h')"
  with keeps_OkD [OF a] keeps_OkD [OF b] show "(K h' \<and> K' h') \<and> Q x \<and> Q' x" by blast
next
  fix h h' assume "K h \<and> K' h" "m h = (TypeError, h')"
  with keeps_TypeErrorD [OF a] keeps_TypeErrorD [OF b] show "K h' \<and> K' h'" by blast
next
  fix h h' assume "K h \<and> K' h" "m h = (Timeout, h')"
  with keeps_TimeoutD [OF a] keeps_TimeoutD [OF b] show "(K h' \<and> K' h')" by blast
qed

lemma keeps_values_length: "keeps K (values_length dataView) (\<lambda>x. True)"
  unfolding values_length_def
  by (rule keeps_bind [OF keeps_read]) (rule keeps_read)

lemma keeps_init_frame:
  shows "keeps (frame_inv h0 nv) (init_newValues_h fuel strnum dataView nv) (\<lambda>u. True)"
  unfolding init_newValues_h_def
  apply (rule keeps_for_loop [OF keeps_values_length])
   apply (rule keeps_bind [OF keeps_new_array_frame])
   apply (rule keeps_push_newValues)
   apply simp
  done

lemma keeps_push_values_frame:
  shows "keeps (frame_inv h0 nv) (push_values_h fuel strnum dataView nv t) (\<lambda>u. True)"
  unfolding push_values_h_def
  apply (rule keeps_for_loop [OF keeps_values_length])
   apply (rule keeps_bind [OF keeps_read_newValues])
   apply (rule keeps_bind [OF keeps_read])
   apply (rule keeps_bind [OF keeps_read])
   apply (rule keeps_bind [OF keeps_read])
   apply (rule keeps_bind [OF keeps_read])
   apply (rule keeps_push_frame)
   apply assumption
  done

lemma keeps_filter_body_frame:
  assumes a: "length h0 \<le> ncv" "ncv \<noteq> nv" "length h0 \<le> nobj" "nobj \<noteq> nv"
  shows "keeps (frame_inv h0 nv)
           (filter_body_h fuel strnum dataView categoryValues categoryObjects mn mx ncv nv nobj t)
           (\<lambda>u. True)"
  unfolding filter_body_h_def
  apply (rule keeps_bind [OF keeps_read])
  apply (rule keeps_if)
   apply (rule keeps_bind [OF keeps_push_frame])
    apply (simp add: a)
   apply (rule keeps_bind [where Q = "\<lambda>u. True"])
    apply (rule keeps_if)
     apply (rule keeps_bind [OF keeps_read])
     apply (rule keeps_push_frame)
     apply (simp add: a)
    apply (rule keeps_ret)
    apply simp
   apply (rule keeps_bind [OF keeps_read])
   apply (rule keeps_if)
    apply (rule keeps_push_values_frame)
   apply (rule keeps_ret)
   apply simp
  apply (rule keeps_ret)
  apply simp
  done

lemma keeps_set_measures_frame:
  assumes a: "length h0 \<le> rvs" "rvs \<noteq> nv"
  shows "keeps (frame_inv h0 nv) (set_measures_h fuel strnum dataView nv rvs) (\<lambda>u. True)"
  unfolding set_measures_h_def
  apply (rule keeps_for_loop [OF keeps_values_length])
   apply (rule keeps_bind [OF keeps_read])
   apply (rule keeps_bind [OF keeps_inherit_frame])
   apply (rule keeps_bind [OF keeps_write_frame])
     apply (simp add: a)
    apply (simp add: special_keys_def)
   apply (rule keeps_bind [OF keeps_read_newValues])
   apply (rule keeps_write_frame)
    apply simp
   apply (simp add: fresh_val_fresh_ref)
  done

lemma result_inv_snoc: "result_inv res dv rvs rcs h \<Longrightarrow> result_inv res dv rvs rcs (h @ [ob])"
  by (simp add: result_inv_def nth_append)

lemma result_inv_set_prop:
  "result_inv res dv rvs rcs h \<Longrightarrow> a \<noteq> res \<Longrightarrow> result_inv res dv rvs rcs (set_prop a k x h)"
  by (simp add: result_inv_def)

lemma keeps_alloc_result:
  "keeps (result_inv res dv rvs rcs) (alloc ob) (\<lambda>a. a \<noteq> res)"
  unfolding keeps_def alloc_def
  by (auto simp: result_inv_def nth_append)

lemma keeps_inherit_result:
  "keeps (result_inv res dv rvs rcs) (inherit v) (\<lambda>a. a \<noteq> res)"
  unfolding inherit_def by (rule keeps_alloc_result)

lemma keeps_write_result:
  assumes "v \<noteq> Ref res"
  shows "keeps (result_inv res dv rvs rcs) (write_prop v k x) (\<lambda>u. True)"
proof (cases v)
  case (Prim p)
  then show ?thesis by (simp add: keeps_def write_prop_def)
next
  case (Ref a)
  with assms have "a \<noteq> res" by simp
  then show ?thesis using Ref
    by (simp add: keeps_def write_prop_def result_inv_set_prop)
qed

lemma keeps_read_target:
  "keeps (result_inv res dv rvs rcs) (read_prop (Ref res) (Name ''categories''))
     (\<lambda>x. x = Ref rcs)"
  by (simp add: keeps_def read_prop_def result_inv_def get.simps [of _ res])

lemma keeps_set_measures_result:
  assumes "rvs \<noteq> res"
  shows "keeps (result_inv res dv rvs rcs) (set_measures_h fuel strnum dataView nv rvs) (\<lambda>u. True)"
  unfolding set_measures_h_def
  apply (rule keeps_for_loop [OF keeps_values_length])
   apply (rule keeps_bind [OF keeps_read])
   apply (rule keeps_bind [OF keeps_inherit_result])
   apply (rule keeps_bind [OF keeps_write_result])
    apply (simp add: assms)
   apply (rule keeps_bind [OF keeps_read])
  apply (rule keeps_write_result)
  apply simp
  done

lemma keeps_derive_tail:
  assumes ncv: "length h0 \<le> ncv" and nobj: "length h0 \<le> nobj"
    and rvs: "length h0 \<le> rvs" "rvs \<noteq> nv" "rvs \<noteq> res"
    and rcs: "length h0 \<le> rcs" "rcs \<noteq> nv" "rcs \<noteq> res"
  shows "keeps (\<lambda>h. frame_inv h0 nv h \<and> result_inv res dataView rvs rcs h)
           (derive_tail_h fuel strnum dataView ncv nv nobj res rvs rcs)
           (\<lambda>r. r = Ref res)"
  unfolding derive_tail_h_def
  apply (rule keeps_bind [OF keeps_conj [OF keeps_read keeps_read_target]])
  apply (rule keeps_bind [OF keeps_read])
  apply (rule keeps_bind [OF keeps_conj [OF keeps_inherit_frame keeps_inherit_result]])
  apply (rule keeps_bind [OF keeps_conj [OF keeps_write_frame keeps_write_result]])
     apply (simp add: rcs)
    apply (simp add: special_keys_def)
   apply (simp add: rcs)
  apply (rule keeps_bind [OF keeps_conj [OF keeps_write_frame keeps_write_result]])
     apply simp
    apply (simp add: fresh_ref_def ncv)
   apply simp
  apply (rule keeps_bind [OF keeps_read])
  apply (rule keeps_bind [where Q = "\<lambda>u. True"])
   apply (rule keeps_if)
    apply (rule keeps_weaken [OF keeps_conj [OF keeps_write_frame keeps_write_result]])
       apply simp
      apply (simp add: fresh_ref_def nobj)
     apply simp
    apply simp
   apply (rule keeps_ret)
   apply simp
  apply (rule keeps_bind [OF keeps_conj [OF keeps_set_measures_frame keeps_set_measures_result]])
      apply (simp add: rvs)
     apply (simp add: rvs)
   apply (simp add: rvs)
  apply (rule keeps_ret)
  apply simp
  done

lemma frame_inv_frame0: "frame_inv h0 nv h \<Longrightarrow> frame0 h0 h"
  by (simp add: frame_inv_def frame0_def)

lemma frame0_prefix: "frame0 h0 h \<Longrightarrow> prefix h0 h"
  by (simp add: frame0_def)

lemma ensures_derive:
  assumes ncv: "length h0 \<le> ncv" and nobj: "length h0 \<le> nobj"
  shows "ensures (frame_inv h0 nv) (derive_h fuel strnum dataView ncv nv nobj) (result_ok h0 dataView)"
proof -
  have main: "\<exists>res rvs rcs h5.
      derive_h fuel strnum dataView ncv nv nobj h =
        derive_tail_h fuel strnum dataView ncv nv nobj res rvs rcs h5 \<and>
      frame_inv h0 nv h5 \<and> result_inv res dataView rvs rcs h5 \<and>
      keeps (\<lambda>h. frame_inv h0 nv h \<and> result_inv res dataView rvs rcs h)
           (derive_tail_h fuel strnum dataView ncv nv nobj res rvs rcs)
           (\<lambda>r. r = Ref res) \<and>
      length h0 \<le> res \<and> length h0 \<le> rvs \<and> length h0 \<le> rcs"
    if f: "frame_inv h0 nv h" for h
  proof -
    define res where "res = length h"
    define h1 where "h1 = h @ [\<lparr>proto = Some dataView, props = Map.empty\<rparr>]"
    define iv where "iv = get h1 res (Name ''values'')"
    define h2 where "h2 = h1 @ [\<lparr>proto = (case iv of Ref a \<Rightarrow> Some a | Prim p \<Rightarrow> None), props = Map.empty\<rparr>]"
    define rvs where "rvs = Suc (length h)"
    define h3 where "h3 = set_prop res (Name ''values'') (Ref rvs) h2"
    define dc where "dc = get h3 dataView (Name ''categories'')"
    define h4 where "h4 = h3 @ [\<lparr>proto = (case dc of Ref a \<Rightarrow> Some a | Prim p \<Rightarrow> None), props = Map.empty\<rparr>]"
    define rcs where "rcs = Suc (Suc (length h))"
    define h5 where "h5 = set_prop res (Name ''categories'') (Ref rcs) h4"
    have eq: "derive_h fuel strnum dataView ncv nv nobj h =
              derive_tail_h fuel strnum dataView ncv nv nobj res rvs rcs h5"
      unfolding derive_h_def h5_def h4_def dc_def h3_def h2_def iv_def h1_def res_def rvs_def rcs_def
      by (simp add: bind_comp_def inherit_def alloc_def read_prop_def write_prop_def)
    from f have len: "length h0 \<le> length h" "nv < length h" by (auto dest: frame_length)
    have f1: "frame_inv h0 nv h1" unfolding h1_def using f by (rule frame_snoc) simp
    have f2: "frame_inv h0 nv h2" unfolding h2_def using f1 by (rule frame_snoc) simp
    have f3: "frame_inv h0 nv h3" unfolding h3_def using f2
      by (rule frame_set_prop) (use len in \<open>simp_all add: res_def rvs_def fresh_ref_def\<close>)
    have f4: "frame_inv h0 nv h4" unfolding h4_def using f3 by (rule frame_snoc) simp
    have f5: "frame_inv h0 nv h5" unfolding h5_def using f4
      by (rule frame_set_prop) (use len in \<open>simp_all add: res_def rcs_def fresh_ref_def\<close>)
    have r5: "result_inv res dataView rvs rcs h5"
      unfolding result_inv_def h5_def h4_def h3_def h2_def h1_def res_def
      by (simp add: nth_append)
    have t: "keeps (\<lambda>h. frame_inv h0 nv h \<and> result_inv res dataView rvs rcs h)
             (derive_tail_h fuel strnum dataView ncv nv nobj res rvs rcs)
             (\<lambda>r. r = Ref res)"
      using ncv nobj len by (intro keeps_derive_tail) (simp_all add: res_def rvs_def rcs_def)
    have l: "length h0 \<le> res" "length h0 \<le> rvs" "length h0 \<le> rcs"
      using len by (simp_all add: res_def rvs_def rcs_def)
    show ?thesis
      apply (rule exI [where x = res])
      apply (rule exI [where x = rvs])
      apply (rule exI [where x = rcs])
      apply (rule exI [where x = h5])
      apply (intro conjI eq f5 r5 t l)
      done
  qed
  show ?thesis
  proof (rule ensuresI)
    fix h x h' assume k: "frame_inv h0 nv h"
      and d: "derive_h fuel strnum dataView ncv nv nobj h = (Ok x, h')"
    from main [OF k] d obtain res rvs rcs h5 where
      t: "derive_tail_h fuel strnum dataView ncv nv nobj res rvs rcs h5 = (Ok x, h')"
      and i: "frame_inv h0 nv h5 \<and> result_inv res dataView rvs rcs h5"
      and s: "keeps (\<lambda>h. frame_inv h0 nv h \<and> result_inv res dataView rvs rcs h)
           (derive_tail_h fuel strnum dataView ncv nv nobj res rvs rcs) (\<lambda>r. r = Ref res)"
      and l: "length h0 \<le> res" "length h0 \<le> rvs" "length h0 \<le> rcs"
      by auto
    from keeps_OkD [OF s i t] l
    show "frame_inv h0 nv h' \<and> result_ok h0 dataView x h'"
      by (auto simp: result_ok_def)
  next
    fix h h' assume k: "frame_inv h0 nv h"
      and d: "derive_h fuel strnum dataView ncv nv nobj h = (TypeError, h')"
    from main [OF k] d obtain res rvs rcs h5 where
      t: "derive_tail_h fuel strnum dataView ncv nv nobj res rvs rcs h5 = (TypeError, h')"
      and i: "frame_inv h0 nv h5 \<and> result_inv res dataView rvs rcs h5"
      and s: "keeps (\<lambda>h. frame_inv h0 nv h \<and> result_inv res dataView rvs rcs h)
           (derive_tail_h fuel strnum dataView ncv nv nobj res rvs rcs) (\<lambda>r. r = Ref res)"
      by auto
    from keeps_TypeErrorD [OF s i t] show "frame_inv h0 nv h'" by simp
  next
    fix h h' assume k: "frame_inv h0 nv h"
      and d: "derive_h fuel strnum dataView ncv nv nobj h = (Timeout, h')"
    from main [OF k] d obtain res rvs rcs h5 where
      t: "derive_tail_h fuel strnum dataView ncv nv nobj res rvs rcs h5 = (Timeout, h')"
      and i: "frame_inv h0 nv h5 \<and> result_inv res dataView rvs rcs h5"
      and s: "keeps (\<lambda>h. frame_inv h0 nv h \<and> result_inv res dataView rvs rcs h)
           (derive_tail_h fuel strnum dataView ncv nv nobj res rvs rcs) (\<lambda>r. r = Ref res)"
      by auto
    from keeps_TimeoutD [OF s i t] show "frame_inv h0 nv h'" by simp
  qed
qed

lemma ensures_build:
  assumes a: "length h0 \<le> ncv" "ncv \<noteq> nv" "length h0 \<le> nobj" "nobj \<noteq> nv"
  shows "ensures (frame_inv h0 nv)
           (build_h fuel strnum dataView categoryValues categoryObjects mn mx ncv nv nobj)
           (result_ok h0 dataView)"
  unfolding build_h_def
  apply (rule ensures_bind [where Q = "\<lambda>x. True"])
   apply (rule keeps_if)
    apply (rule keeps_read)
   apply (rule keeps_ret)
   apply simp
  apply (rule ensures_bind [where Q = "\<lambda>x. True"])
   apply (rule keeps_if)
    apply (rule keeps_bind [OF keeps_read])
    apply (rule keeps_read)
   apply (rule keeps_ret)
   apply simp
  apply (rule ensures_if)
   apply (rule ensures_ret)
   apply (simp add: result_ok_def)
  apply (rule ensures_bind [OF keeps_init_frame])
  apply (rule ensures_bind [OF keeps_for_loop [OF keeps_read keeps_filter_body_frame [OF a]]])
  apply (rule ensures_derive [OF a(1) a(3)])
  done

lemma ensures_allocate:
  assumes b: "\<And>ncv nv nobj. length h0 \<le> ncv \<Longrightarrow> ncv \<noteq> nv \<Longrightarrow> length h0 \<le> nobj \<Longrightarrow> nobj \<noteq> nv \<Longrightarrow>
                ensures (frame_inv h0 nv) (B ncv nv nobj) R"
  shows "ensures (frame0 h0)
           (bind_comp new_array (\<lambda>ncv. bind_comp new_array (\<lambda>nv. bind_comp new_array
              (\<lambda>nobj. B ncv nv nobj)))) R"
proof -
  have main: "\<exists>n h3. bind_comp new_array (\<lambda>ncv. bind_comp new_array (\<lambda>nv. bind_comp new_array
              (\<lambda>nobj. B ncv nv nobj))) h = B n (Suc n) (Suc (Suc n)) h3 \<and>
              frame_inv h0 (Suc n) h3 \<and> ensures (frame_inv h0 (Suc n)) (B n (Suc n) (Suc (Suc n))) R"
    if f: "frame0 h0 h" for h
  proof -
    define arr where "arr = \<lparr>proto = None, props = [Name ''length'' \<mapsto> Prim (Number (Num 0))]\<rparr>"
    define h3 where "h3 = ((h @ [arr]) @ [arr]) @ [arr]"
    have eq: "bind_comp new_array (\<lambda>ncv. bind_comp new_array (\<lambda>nv. bind_comp new_array
                (\<lambda>nobj. B ncv nv nobj))) h = B (length h) (Suc (length h)) (Suc (Suc (length h))) h3"
      unfolding h3_def arr_def by (simp add: bind_comp_def new_array_def alloc_def)
    from f have p: "prefix h0 h" and o: "owned (length h0) h" by (auto simp: frame0_def)
    have len: "length h0 \<le> length h" using p by (rule prefix_length_le)
    have sp: "\<forall>k \<in> special_keys. props arr k = None" by (simp add: arr_def special_keys_def)
    have o3: "owned (length h0) h3"
      unfolding h3_def using o sp by (intro owned_snoc)
    have p3: "prefix h0 h3" unfolding h3_def using p by simp
    have i3: "inv_newValues (length h0) (Suc (length h)) h3"
      unfolding inv_newValues_def h3_def using len by (simp add: nth_append arr_def)
    have f3: "frame_inv h0 (Suc (length h)) h3" using p3 o3 i3 by (simp add: frame_inv_def)
    have s: "ensures (frame_inv h0 (Suc (length h))) (B (length h) (Suc (length h)) (Suc (Suc (length h)))) R"
      using len by (intro b) simp_all
    from eq f3 s show ?thesis by blast
  qed
  show ?thesis
  proof (rule ensuresI)
    fix h x h' assume k: "frame0 h0 h"
      and d: "bind_comp new_array (\<lambda>ncv. bind_comp new_array (\<lambda>nv. bind_comp new_array
              (\<lambda>nobj. B ncv nv nobj))) h = (Ok x, h')"
    from main [OF k] d obtain n h3 where "B n (Suc n) (Suc (Suc n)) h3 = (Ok x, h')"
      "frame_inv h0 (Suc n) h3" "ensures (frame_inv h0 (Suc n)) (B n (Suc n) (Suc (Suc n))) R"
      by auto
    from ensures_OkD [OF this(3,2,1)] show "frame0 h0 h' \<and> R x h'" by (auto dest: frame_inv_frame0)
  next
    fix h h' assume k: "frame0 h0 h"
      and d: "bind_comp new_array (\<lambda>ncv. bind_comp new_array (\<lambda>nv. bind_comp new_array
              (\<lambda>nobj. B ncv nv nobj))) h = (TypeError, h')"
    from main [OF k] d obtain n h3 where "B n (Suc n) (Suc (Suc n)) h3 = (TypeError, h')"
      "frame_inv h0 (Suc n) h3" "ensures (frame_inv h0 (Suc n)) (B n (Suc n) (Suc (Suc n))) R"
      by auto
    from ensures_TypeErrorD [OF this(3,2,1)] show "frame0 h0 h'" by (auto dest: frame_inv_frame0)
  next
    fix h h' assume k: "frame0 h0 h"
      and d: "bind_comp new_array (\<lambda>ncv. bind_comp new_array (\<lambda>nv. bind_comp new_array
              (\<lambda>nobj. B ncv nv nobj))) h = (Timeout, h')"
    from main [OF k] d obtain n h3 where "B n (Suc n) (Suc (Suc n)) h3 = (Timeout, h')"
      "frame_inv h0 (Suc n) h3" "ensures (frame_inv h0 (Suc n)) (B n (Suc n) (Suc (Suc n))) R"
      by auto
    from ensures_TimeoutD [OF this(3,2,1)] show "frame0 h0 h'" by (auto dest: frame_inv_frame0)
  qed
qed

lemma ensures_transformDomain:
  shows "ensures (frame0 h0) (transformDomain_h fuel isOrdinal strnum dataView mn mx)
           (result_ok h0 dataView)"
  unfolding transformDomain_h_def
  apply (rule ensures_bind [OF keeps_read])
  apply (rule ensures_if)
   apply (rule ensures_ret, simp add: result_ok_def)
  apply (rule ensures_bind [OF keeps_read])
  apply (rule ensures_if)
   apply (rule ensures_ret, simp add: result_ok_def)
  apply (rule ensures_bind [OF keeps_read])
  apply (rule ensures_if)
   apply (rule ensures_ret, simp add: result_ok_def)
  apply (rule ensures_bind [OF keeps_read])
  apply (rule ensures_if)
   apply (rule ensures_ret, simp add: result_ok_def)
  apply (rule ensures_if)
   apply (rule ensures_ret, simp add: result_ok_def)
  apply (rule ensures_bind [OF keeps_read])
  apply (rule ensures_bind [where Q = "\<lambda>x. True"])
   apply (rule keeps_if)
    apply (rule keeps_bind [OF keeps_read])
    apply (rule keeps_read)
   apply (rule keeps_ret, simp)
  apply (rule ensures_bind [OF keeps_ask])
  apply (rule ensures_if)
   apply (rule ensures_ret, simp add: result_ok_def)
  apply (rule ensures_bind [OF keeps_read])
  apply (rule ensures_bind [OF keeps_read])
  apply (rule ensures_if)
   apply (rule ensures_ret, simp add: result_ok_def)
  apply (rule ensures_allocate)
  apply (rule ensures_build)
     apply assumption+
  done

lemma frame0_refl: "frame0 h0 h0"
  by (simp add: frame0_def owned_def)


text \<open>
  Whatever the call is given and however it ends, also when it throws or its fuel runs
  out, the input heap is a prefix of the final heap: every object of the input is what
  it was, and new objects have only been added. A value that is returned is the input
  data view, \<open>undefined\<close>, or a new object whose prototype is the input data view and
  whose own properties are \<open>values\<close> and \<open>categories\<close>, both new objects; no new object
  holds an input object as its \<open>values\<close>, \<open>objects\<close> or \<open>categories\<close>.
\<close>

lemma transformDomain_h_unchanged:
  assumes run: "transformDomain_h fuel isOrdinal strnum dataView mn mx h0 = (r, h')"
  shows "prefix h0 h'"
    and "\<forall>x. r = Ok x \<longrightarrow>
            x = Ref dataView \<or> x = Prim Undefined \<or>
            (\<exists>res rvs rcs.
               x = Ref res \<and> length h0 \<le> res \<and> res < length h' \<and>
               proto (h' ! res) = Some dataView \<and>
               props (h' ! res) = [Name ''values'' \<mapsto> Ref rvs, Name ''categories'' \<mapsto> Ref rcs] \<and>
               length h0 \<le> rvs \<and> length h0 \<le> rcs)"
    and "\<forall>a k b. length h0 \<le> a \<and> a < length h' \<and>
            k \<in> {Name ''values'', Name ''objects'', Name ''categories''} \<and>
            props (h' ! a) k = Some (Ref b) \<longrightarrow> length h0 \<le> b"
proof -
  have s: "ensures (frame0 h0) (transformDomain_h fuel isOrdinal strnum dataView mn mx)
             (result_ok h0 dataView)"
    by (rule ensures_transformDomain)
  have f: "frame0 h0 h'"
    using s frame0_refl [of h0] run
    by (cases r) (auto dest: ensures_OkD ensures_TypeErrorD ensures_TimeoutD)
  then show p: "prefix h0 h'" and o: "\<forall>a k b. length h0 \<le> a \<and> a < length h' \<and>
            k \<in> {Name ''values'', Name ''objects'', Name ''categories''} \<and>
            props (h' ! a) k = Some (Ref b) \<longrightarrow> length h0 \<le> b"
    by (simp_all add: frame0_def owned_def special_keys_def)
  show "\<forall>x. r = Ok x \<longrightarrow>
            x = Ref dataView \<or> x = Prim Undefined \<or>
            (\<exists>res rvs rcs.
               x = Ref res \<and> length h0 \<le> res \<and> res < length h' \<and>
               proto (h' ! res) = Some dataView \<and>
               props (h' ! res) = [Name ''values'' \<mapsto> Ref rvs, Name ''categories'' \<mapsto> Ref rcs] \<and>
               length h0 \<le> rvs \<and> length h0 \<le> rcs)"
  proof (intro allI impI)
    fix x assume "r = Ok x"
    with ensures_OkD [OF s frame0_refl] run have "result_ok h0 dataView x h'" by simp
    then show "x = Ref dataView \<or> x = Prim Undefined \<or>
            (\<exists>res rvs rcs.
               x = Ref res \<and> length h0 \<le> res \<and> res < length h' \<and>
               proto (h' ! res) = Some dataView \<and>
               props (h' ! res) = [Name ''values'' \<mapsto> Ref rvs, Name ''categories'' \<mapsto> Ref rcs] \<and>
               length h0 \<le> rvs \<and> length h0 \<le> rcs)"
      unfolding result_ok_def result_inv_def by blast
  qed
qed

text \<open>
  The run on an input that is filtered, step by step: every loop and every statement
  takes one explicitly given heap to the next.
\<close>

lemma get_own: "a < length h \<Longrightarrow> props (h ! a) k = Some v \<Longrightarrow> get h a k = v"
  by (simp add: get.simps [of h a])

lemma get_inherited:
  "a < length h \<Longrightarrow> props (h ! a) k = None \<Longrightarrow> proto (h ! a) = Some p \<Longrightarrow> p < a \<Longrightarrow>
   get h a k = get h p k"
  by (simp add: get.simps [of h a])

lemma get_absent:
  "a < length h \<Longrightarrow> props (h ! a) k = None \<Longrightarrow> proto (h ! a) = None \<Longrightarrow>
   get h a k = Prim Undefined"
  by (simp add: get.simps [of h a])

lemma get_beyond: "\<not> a < length h \<Longrightarrow> get h a k = Prim Undefined"
  by (simp add: get.simps [of h a])

lemma get_defined: "get h a k \<noteq> Prim Undefined \<Longrightarrow> a < length h"
  by (rule ccontr) (simp add: get_beyond)

lemma get_prefix': "prefix h0 h \<Longrightarrow> get h0 a k \<noteq> Prim Undefined \<Longrightarrow> get h a k = get h0 a k"
  by (rule get_prefix) (auto dest: get_defined)

lemma get_array_of_Index:
  "a < length h \<Longrightarrow> h ! a = array_of xs \<Longrightarrow>
   get h a (Index i) = (if i < length xs then xs ! i else Prim Undefined)"
  by (simp add: get.simps [of h a] array_of_def)

lemma get_array_of_length:
  "a < length h \<Longrightarrow> h ! a = array_of xs \<Longrightarrow>
   get h a (Name ''length'') = Prim (Number (Num (real (length xs))))"
  by (simp add: get.simps [of h a] array_of_def)

lemma array_length_array_of:
  "a < length h \<Longrightarrow> h ! a = array_of xs \<Longrightarrow> array_length h a = length xs"
  by (simp add: array_length_def get_array_of_length)

lemma array_of_snoc:
  "(array_of xs)\<lparr>props := ((props (array_of xs))(Index (length xs) \<mapsto> x))
      (Name ''length'' \<mapsto> Prim (Number (Num (real (length xs + 1)))))\<rparr> = array_of (xs @ [x])"
  by (auto simp: array_of_def fun_eq_iff nth_append split: key.splits)

lemma push_array:
  assumes "a < length h" "h ! a = array_of xs"
  shows "push (Ref a) x h = (Ok (), h[a := array_of (xs @ [x])])"
proof -
  have "set_prop a (Name ''length'') (Prim (Number (Num (real (length xs + 1)))))
          (set_prop a (Index (length xs)) x h) = h[a := array_of (xs @ [x])]"
    using assms by (simp add: set_prop_def array_of_snoc [symmetric])
  then show ?thesis using assms by (simp add: push_def array_length_array_of)
qed

lemma new_array_eq: "new_array h = (Ok (length h), h @ [array_of []])"
proof -
  have "\<lparr>proto = None, props = [Name ''length'' \<mapsto> Prim (Number (Num 0))]\<rparr> = array_of []"
    by (auto simp: array_of_def fun_eq_iff split: key.splits)
  then show ?thesis by (simp add: new_array_def alloc_def)
qed

lemma incr_Suc: "i < 2 ^ 32 \<Longrightarrow> incr i = Suc i"
proof -
  assume "i < 2 ^ 32"
  then have "int i + 1 < 2 ^ 53" by simp
  then have "\<bar>int i + 1\<bar> < 2 ^ 53" by simp
  from round_to_double_int [OF this] have "round_to_double (real i + 1) = Num (real (Suc i))"
    by (simp add: add.commute)
  then show ?thesis by (simp add: incr_def)
qed

lemma for_loop_run:
  assumes bound: "\<And>i. i \<le> n \<Longrightarrow> bound (H i) = (Ok (Prim (Number (Num (real n)))), H i)"
    and body: "\<And>i. i < n \<Longrightarrow> body i (H i) = (Ok (), H (Suc i))"
    and n: "n < 2 ^ 32"
  shows "i \<le> n \<Longrightarrow> n - i < fuel \<Longrightarrow> for_loop fuel strnum bound body i (H i) = (Ok (), H n)"
proof (induction fuel arbitrary: i)
  case 0
  then show ?case by simp
next
  case (Suc fuel)
  show ?case
  proof (cases "i < n")
    case True
    then have "incr i = Suc i" using n by (intro incr_Suc) simp
    moreover have "for_loop fuel strnum bound body (Suc i) (H (Suc i)) = (Ok (), H n)"
      using True Suc.prems by (intro Suc.IH) simp_all
    ultimately show ?thesis using True bound [OF Suc.prems(1)] body [OF True] by simp
  next
    case False
    with Suc.prems have "i = n" by simp
    then show ?thesis using bound [of n] by simp
  qed
qed

lemma length_work_heap [simp]: "length (work_heap h0 a b cs) = length h0 + 3 + length cs"
  by (simp add: work_heap_def)

lemma prefix_work_heap: "prefix h0 (work_heap h0 a b cs)"
  by (simp add: work_heap_def)

lemma work_heap_nth:
  "work_heap h0 a b cs ! length h0 = array_of a"
  "work_heap h0 a b cs ! Suc (length h0) =
     array_of (map (\<lambda>k. Ref (length h0 + 3 + k)) [0 ..< length cs])"
  "work_heap h0 a b cs ! Suc (Suc (length h0)) = array_of b"
  "k < length cs \<Longrightarrow> work_heap h0 a b cs ! (length h0 + 3 + k) = array_of (cs ! k)"
  by (simp_all add: work_heap_def nth_append)

lemma work_heap_update:
  "(work_heap h0 a b cs)[length h0 := array_of a'] = work_heap h0 a' b cs"
  "(work_heap h0 a b cs)[Suc (Suc (length h0)) := array_of b'] = work_heap h0 a b' cs"
  "k < length cs \<Longrightarrow>
   (work_heap h0 a b cs)[length h0 + 3 + k := array_of ys] = work_heap h0 a b (cs[k := ys])"
  by (simp_all add: work_heap_def list_update_append map_update)

lemma work_heap_grow:
  "(work_heap h0 a b cs @ [array_of []])
     [Suc (length h0) := array_of (map (\<lambda>k. Ref (length h0 + 3 + k)) [0 ..< length cs] @
                                   [Ref (length h0 + 3 + length cs)])] =
   work_heap h0 a b (cs @ [[]])"
  by (simp add: work_heap_def list_update_append)


lemma is_array_prefix:
  assumes p: "prefix h0 h" and a: "is_array h0 a xs"
  shows "is_array h a xs"
proof -
  from a have "get h0 a (Name ''length'') \<noteq> Prim Undefined" by (simp add: is_array_def)
  then have "a < length h0" by (rule get_defined)
  then have "get h a k = get h0 a k" for k using p by (intro get_prefix)
  with a show ?thesis by (simp add: is_array_def)
qed

lemma holds_view_prefix:
  assumes p: "prefix h0 h" and v: "holds_view h0 dataView L"
  shows "holds_view h dataView L"
proof -
  have g: "get h a k = Ref b" if "get h0 a k = Ref b" for a k b
    using get_prefix' [OF p, of a k] that by simp
  show ?thesis
    using v unfolding holds_view_def
    by (auto intro: g is_array_prefix [OF p])
qed

lemma holds_viewD:
  assumes "holds_view h dataView L"
  shows "get h dataView (Name ''categories'') = Ref (categories_at L)"
    and "is_array h (categories_at L) (Ref (category_at L) # other_categories L)"
    and "get h (category_at L) (Name ''source'') = Ref (source_at L)"
    and "get h (category_at L) (Name ''values'') = Ref (category_values_at L)"
    and "is_array h (category_values_at L) (map Prim (category_values L))"
    and "get h (category_at L) (Name ''objects'') = Ref (category_objects_at L)"
    and "is_array h (category_objects_at L) (category_objects L)"
    and "get h dataView (Name ''values'') = Ref (columns_at L)"
    and "is_array h (columns_at L) (map Ref (column_at L))"
    and "column_at L \<noteq> []"
    and "length (column_values_at L) = length (column_at L)"
    and "length (column_values L) = length (column_at L)"
    and "\<And>k. k < length (column_at L) \<Longrightarrow>
           get h (column_at L ! k) (Name ''values'') = Ref (column_values_at L ! k)"
    and "\<And>k. k < length (column_at L) \<Longrightarrow>
           is_array h (column_values_at L ! k) (column_values L ! k)"
  using assms by (simp_all add: holds_view_def)

lemma is_arrayD:
  assumes "is_array h a xs"
  shows "length xs < 2 ^ 32"
    and "get h a (Name ''length'') = Prim (Number (Num (real (length xs))))"
    and "get h a (Index i) = (if i < length xs then xs ! i else Prim Undefined)"
    and "get h a (NumericName n) = Prim Undefined"
  using assms by (simp_all add: is_array_def)

lemma read_prop_Ref [simp]: "read_prop (Ref a) k h = (Ok (get h a k), h)"
  by (simp add: read_prop_def)

lemma bind_comp_Ok: "m h = (Ok x, h1) \<Longrightarrow> bind_comp m f h = f x h1"
  by (simp add: bind_comp_def)

lemma values_length_run:
  assumes "holds_view h dataView L"
  shows "values_length dataView h = (Ok (Prim (Number (Num (real (length (column_at L)))))), h)"
  using holds_viewD(8) [OF assms] is_arrayD(2) [OF holds_viewD(9) [OF assms]]
  by (simp add: values_length_def bind_comp_def)

lemma init_run:
  assumes hv: "holds_view h0 dataView L" and fuel: "length (column_at L) < fuel"
  shows "init_newValues_h fuel strnum dataView (Suc (length h0)) (work_heap h0 [] [] []) =
         (Ok (), work_heap h0 [] [] (replicate (length (column_at L)) []))"
proof -
  let ?m = "length (column_at L)"
  let ?H = "\<lambda>j. work_heap h0 [] [] (replicate j [])"
  have m: "?m < 2 ^ 32" using is_arrayD(1) [OF holds_viewD(9) [OF hv]] by simp
  have "for_loop fuel strnum (values_length dataView)
          (\<lambda>j. bind_comp new_array (\<lambda>empty. push (Ref (Suc (length h0))) (Ref empty))) 0 (?H 0) =
        (Ok (), ?H ?m)"
  proof (rule for_loop_run [where H = ?H])
    fix i assume "i \<le> ?m"
    show "values_length dataView (?H i) = (Ok (Prim (Number (Num (real ?m)))), ?H i)"
      by (rule values_length_run [OF holds_view_prefix [OF prefix_work_heap hv]])
  next
    fix i assume "i < ?m"
    have l: "Suc (length h0) < length (?H i @ [array_of []])" by simp
    have e: "(?H i @ [array_of []]) ! Suc (length h0) =
             array_of (map (\<lambda>k. Ref (length h0 + 3 + k)) [0 ..< length (replicate i ([] :: hval list))])"
      by (simp add: nth_append work_heap_nth)
    have "push (Ref (Suc (length h0))) (Ref (length (?H i))) (?H i @ [array_of []]) =
          (Ok (), ?H (Suc i))"
      unfolding push_array [OF l e]
      using work_heap_grow [of h0 "[]" "[]" "replicate i []"]
      by (simp add: replicate_append_same)
    then show "bind_comp new_array (\<lambda>empty. push (Ref (Suc (length h0))) (Ref empty)) (?H i) =
          (Ok (), ?H (Suc i))"
      by (simp add: bind_comp_def new_array_eq)
  qed (use m fuel in simp_all)
  then show ?thesis by (simp add: init_newValues_h_def)
qed

lemma push_values_run:
  assumes hv: "holds_view h0 dataView L" and fuel: "length (column_at L) < fuel"
    and len: "length cs = length (column_at L)"
  shows "push_values_h fuel strnum dataView (Suc (length h0)) t (work_heap h0 a b cs) =
         (Ok (), work_heap h0 a b
            (map (\<lambda>j. cs ! j @ [js_index (Prim Undefined) (column_values L ! j) (int t)])
               [0 ..< length (column_at L)]))"
proof -
  let ?m = "length (column_at L)"
  let ?e = "\<lambda>j. js_index (Prim Undefined) (column_values L ! j) (int t)"
  let ?cs = "\<lambda>k. map (\<lambda>j. if j < k then cs ! j @ [?e j] else cs ! j) [0 ..< ?m]"
  let ?H = "\<lambda>k. work_heap h0 a b (?cs k)"
  let ?body = "\<lambda>k. bind_comp (read_prop (Ref (Suc (length h0))) (Index k)) (\<lambda>newValues_k.
            bind_comp (read_prop (Ref dataView) (Name ''values'')) (\<lambda>dataView_values.
            bind_comp (read_prop dataView_values (Index k)) (\<lambda>column.
            bind_comp (read_prop column (Name ''values'')) (\<lambda>column_values.
            bind_comp (read_prop column_values (Index t)) (\<lambda>x.
              push newValues_k x)))))"
  have m: "?m < 2 ^ 32" using is_arrayD(1) [OF holds_viewD(9) [OF hv]] by simp
  have H0: "?H 0 = work_heap h0 a b cs" by (simp add: len [symmetric] map_nth)
  have c: "?cs ?m = map (\<lambda>j. cs ! j @ [?e j]) [0 ..< ?m]"
    by (intro nth_equalityI) simp_all
  have Hm: "?H ?m = work_heap h0 a b (map (\<lambda>j. cs ! j @ [?e j]) [0 ..< ?m])"
    by (simp only: c)
  have "for_loop fuel strnum (values_length dataView) ?body 0 (?H 0) = (Ok (), ?H ?m)"
  proof (rule for_loop_run [where H = ?H])
    fix i assume "i \<le> ?m"
    show "values_length dataView (?H i) = (Ok (Prim (Number (Num (real ?m)))), ?H i)"
      by (rule values_length_run [OF holds_view_prefix [OF prefix_work_heap hv]])
  next
    fix k assume k: "k < ?m"
    note v = holds_view_prefix [OF prefix_work_heap [of h0 a b "?cs k"] hv]
    have l: "Suc (length h0) < length (?H k)" by simp
    have 1: "get (?H k) (Suc (length h0)) (Index k) = Ref (length h0 + 3 + k)"
      using k by (simp add: get_array_of_Index [OF l work_heap_nth(2)])
    have 2: "get (?H k) (columns_at L) (Index k) = Ref (column_at L ! k)"
      using k by (simp add: is_arrayD(3) [OF holds_viewD(9) [OF v]])
    have 3: "get (?H k) (column_values_at L ! k) (Index t) = ?e k"
      by (simp add: is_arrayD(3) [OF holds_viewD(14) [OF v k]] js_index_def)
    have lk: "length h0 + 3 + k < length (?H k)" using k by simp
    have ek: "?H k ! (length h0 + 3 + k) = array_of (cs ! k)"
      using k by (simp add: work_heap_nth(4))
    have upd: "(?cs k)[k := cs ! k @ [?e k]] = ?cs (Suc k)"
      using k by (intro nth_equalityI) (auto simp: nth_list_update less_Suc_eq)
    have "push (Ref (length h0 + 3 + k)) (?e k) (?H k) = (Ok (), ?H (Suc k))"
      unfolding push_array [OF lk ek] using k
      by (simp only: work_heap_update(3) [of k "?cs k", simplified] upd)
    then show "?body k (?H k) = (Ok (), ?H (Suc k))"
      by (simp add: bind_comp_def holds_viewD(8) [OF v] 1 2 3 holds_viewD(13) [OF v k])
  qed (use m fuel in simp_all)
  then show ?thesis unfolding push_values_h_def H0 Hm .
qed


lemma restrict_to_snoc:
  "restrict_to u (ks @ [t]) xs = restrict_to u ks xs @ [js_index u xs (int t)]"
  by (simp add: restrict_to_def)

lemma filter_body_run:
  assumes hv: "holds_view h0 dataView L" and fuel: "length (column_at L) < fuel"
    and len: "length cs = length (column_at L)" and t: "t < length (category_values L)"
  shows "filter_body_h fuel strnum dataView (Ref (category_values_at L))
           (Ref (category_objects_at L)) (Prim lo) (Prim hi)
           (length h0) (Suc (length h0)) (Suc (Suc (length h0))) t (work_heap h0 a b cs) =
         (Ok (),
          if in_bounds strnum lo hi (category_values L ! t)
          then work_heap h0 (a @ [Prim (category_values L ! t)])
                 (b @ [js_index (Prim Undefined) (category_objects L) (int t)])
                 (map (\<lambda>j. cs ! j @ [js_index (Prim Undefined) (column_values L ! j) (int t)])
                    [0 ..< length (column_at L)])
          else work_heap h0 a b cs)"
proof -
  let ?W = "work_heap h0 a b cs"
  note v = holds_view_prefix [OF prefix_work_heap [of h0 a b cs] hv]
  have 1: "get ?W (category_values_at L) (Index t) = Prim (category_values L ! t)"
    using t by (simp add: is_arrayD(3) [OF holds_viewD(5) [OF v]])
  have unfold: "filter_body_h fuel strnum dataView (Ref (category_values_at L))
           (Ref (category_objects_at L)) (Prim lo) (Prim hi)
           (length h0) (Suc (length h0)) (Suc (Suc (length h0))) t ?W =
      (if in_bounds strnum lo hi (category_values L ! t) then
         bind_comp (push (Ref (length h0)) (Prim (category_values L ! t))) (\<lambda>u.
         bind_comp (bind_comp (read_prop (Ref (category_objects_at L)) (Index t))
                           (\<lambda>ob. push (Ref (Suc (Suc (length h0)))) ob)) (\<lambda>u.
         bind_comp (read_prop (Ref dataView) (Name ''values'')) (\<lambda>dataView_values.
           if truthy dataView_values
           then push_values_h fuel strnum dataView (Suc (length h0)) t
           else ret ()))) ?W
       else (Ok (), ?W))"
    by (simp add: filter_body_h_def bind_comp_def 1 in_bounds_def ret_def)
  show ?thesis
  proof (cases "in_bounds strnum lo hi (category_values L ! t)")
    case False
    then show ?thesis unfolding unfold by simp
  next
    case True
    let ?v = "Prim (category_values L ! t)"
    let ?ob = "js_index (Prim Undefined) (category_objects L) (int t)"
    let ?W1 = "work_heap h0 (a @ [?v]) b cs"
    let ?W2 = "work_heap h0 (a @ [?v]) (b @ [?ob]) cs"
    have p1: "push (Ref (length h0)) ?v ?W = (Ok (), ?W1)"
      by (subst push_array [where xs = a]) (simp_all add: work_heap_nth work_heap_update)
    note v1 = holds_view_prefix [OF prefix_work_heap [of h0 "a @ [?v]" b cs] hv]
    have 2: "get ?W1 (category_objects_at L) (Index t) = ?ob"
      by (simp add: is_arrayD(3) [OF holds_viewD(7) [OF v1]] js_index_def)
    have p2: "push (Ref (Suc (Suc (length h0)))) ?ob ?W1 = (Ok (), ?W2)"
      by (subst push_array [where xs = b]) (simp_all add: work_heap_nth work_heap_update)
    note v2 = holds_view_prefix [OF prefix_work_heap [of h0 "a @ [?v]" "b @ [?ob]" cs] hv]
    show ?thesis
      unfolding unfold using True
      by (simp add: bind_comp_def p1 2 p2 holds_viewD(8) [OF v2] push_values_run [OF hv fuel len])
  qed
qed

lemma filter_loop_run:
  assumes hv: "holds_view h0 dataView L" and fuel: "length (column_at L) < fuel"
    and fuel2: "length (category_values L) < fuel"
  shows "for_loop fuel strnum (read_prop (Ref (category_values_at L)) (Name ''length''))
           (filter_body_h fuel strnum dataView (Ref (category_values_at L))
              (Ref (category_objects_at L)) (Prim lo) (Prim hi)
              (length h0) (Suc (length h0)) (Suc (Suc (length h0)))) 0
           (work_heap h0 [] [] (replicate (length (column_at L)) [])) =
         (Ok (),
          work_heap h0
            (map Prim (restrict_to Undefined (kept_indices strnum lo hi (category_values L))
                         (category_values L)))
            (restrict_to (Prim Undefined) (kept_indices strnum lo hi (category_values L))
               (category_objects L))
            (map (\<lambda>k. restrict_to (Prim Undefined) (kept_indices strnum lo hi (category_values L))
                         (column_values L ! k))
               [0 ..< length (column_at L)]))"
proof -
  let ?m = "length (column_at L)" and ?n = "length (category_values L)"
  let ?cvs = "category_values L"
  let ?K = "\<lambda>t. kept_upto strnum lo hi ?cvs t"
  let ?H = "\<lambda>t. work_heap h0 (map Prim (restrict_to Undefined (?K t) ?cvs))
                 (restrict_to (Prim Undefined) (?K t) (category_objects L))
                 (map (\<lambda>k. restrict_to (Prim Undefined) (?K t) (column_values L ! k)) [0 ..< ?m])"
  have n: "?n < 2 ^ 32" using is_arrayD(1) [OF holds_viewD(5) [OF hv]] by simp
  have H0: "?H 0 = work_heap h0 [] [] (replicate ?m [])"
    by (simp add: kept_upto_def restrict_to_def map_replicate_const)
  have Hn: "?K ?n = kept_indices strnum lo hi ?cvs"
    by (simp add: kept_upto_def kept_indices_def)
  have "for_loop fuel strnum (read_prop (Ref (category_values_at L)) (Name ''length''))
           (filter_body_h fuel strnum dataView (Ref (category_values_at L))
              (Ref (category_objects_at L)) (Prim lo) (Prim hi)
              (length h0) (Suc (length h0)) (Suc (Suc (length h0)))) 0 (?H 0) = (Ok (), ?H ?n)"
  proof (rule for_loop_run [where H = ?H])
    fix i assume "i \<le> ?n"
    note v = holds_view_prefix [OF prefix_work_heap hv]
    show "read_prop (Ref (category_values_at L)) (Name ''length'') (?H i) =
          (Ok (Prim (Number (Num (real ?n)))), ?H i)"
      by (simp add: is_arrayD(2) [OF holds_viewD(5) [OF v]])
  next
    fix t assume t: "t < ?n"
    have A: "map Prim (restrict_to Undefined (?K t @ [t]) ?cvs) =
             map Prim (restrict_to Undefined (?K t) ?cvs) @ [Prim (?cvs ! t)]"
      using t by (simp add: restrict_to_snoc js_index_def)
    have B: "restrict_to (Prim Undefined) (?K t @ [t]) (category_objects L) =
             restrict_to (Prim Undefined) (?K t) (category_objects L) @
             [js_index (Prim Undefined) (category_objects L) (int t)]"
      by (simp add: restrict_to_snoc)
    have cols: "map (\<lambda>k. restrict_to (Prim Undefined) (?K t @ [t]) (column_values L ! k)) [0 ..< ?m] =
                map (\<lambda>j. map (\<lambda>k. restrict_to (Prim Undefined) (?K t) (column_values L ! k)) [0 ..< ?m] ! j @
                       [js_index (Prim Undefined) (column_values L ! j) (int t)]) [0 ..< ?m]"
      by (intro nth_equalityI) (simp_all add: restrict_to_snoc)
    have len: "length (map (\<lambda>k. restrict_to (Prim Undefined) (?K t) (column_values L ! k)) [0 ..< ?m]) = ?m"
      by simp
    note r = filter_body_run [OF hv fuel len t]
    show "filter_body_h fuel strnum dataView (Ref (category_values_at L))
              (Ref (category_objects_at L)) (Prim lo) (Prim hi)
              (length h0) (Suc (length h0)) (Suc (Suc (length h0))) t (?H t) = (Ok (), ?H (Suc t))"
    proof (cases "in_bounds strnum lo hi (?cvs ! t)")
      case True
      then have k: "?K (Suc t) = ?K t @ [t]" by (simp add: kept_upto_Suc)
      show ?thesis
        unfolding k A B cols r using True by (simp only: if_True)
    next
      case False
      then have k: "?K (Suc t) = ?K t" by (simp add: kept_upto_Suc)
      show ?thesis
        unfolding k r using False by (simp only: if_False)
    qed
  qed (use n fuel2 in simp_all)
  then show ?thesis unfolding H0 Hn .
qed


lemma length_derived_heap [simp]:
  "length (derived_heap h0 dataView L a b cs t) = length h0 + 3 + length cs + 4 + t"
  by (simp add: derived_heap_def)

lemma prefix_derived_heap: "prefix h0 (derived_heap h0 dataView L a b cs t)"
  unfolding derived_heap_def work_heap_def by simp

lemma holds_view_addr:
  assumes "holds_view h dataView L"
  shows "dataView < length h" "categories_at L < length h" "category_at L < length h"
    "columns_at L < length h" "k < length (column_at L) \<Longrightarrow> column_at L ! k < length h"
proof -
  note d = holds_viewD [OF assms]
  show "dataView < length h" by (rule get_defined [of h _ "Name ''categories''"]) (simp add: d)
  show "categories_at L < length h"
    by (rule get_defined [of h _ "Name ''length''"]) (simp add: is_arrayD(2) [OF d(2)])
  show "category_at L < length h" by (rule get_defined [of h _ "Name ''source''"]) (simp add: d)
  show "columns_at L < length h"
    by (rule get_defined [of h _ "Name ''length''"]) (simp add: is_arrayD(2) [OF d(9)])
  show "column_at L ! k < length h" if "k < length (column_at L)"
    by (rule get_defined [of h _ "Name ''values''"]) (simp add: d(13) [OF that])
qed

lemma set_measures_run:
  assumes hv: "holds_view h0 dataView L" and fuel: "length (column_at L) < fuel"
    and len: "length cs = length (column_at L)"
  shows "set_measures_h fuel strnum dataView (Suc (length h0)) (length h0 + 3 + length cs + 1)
           (derived_heap h0 dataView L a b cs 0) =
         (Ok (), derived_heap h0 dataView L a b cs (length (column_at L)))"
proof -
  let ?m = "length (column_at L)"
  let ?D = "\<lambda>t. derived_heap h0 dataView L a b cs t"
  let ?res = "length h0 + 3 + length cs"
  let ?body = "\<lambda>t. bind_comp (read_prop (Ref (?res + 1)) (Index t)) (\<lambda>column.
            bind_comp (inherit column) (\<lambda>measureArray.
            bind_comp (write_prop (Ref (?res + 1)) (Index t) (Ref measureArray)) (\<lambda>u.
            bind_comp (read_prop (Ref (Suc (length h0))) (Index t)) (\<lambda>newValues_t.
              write_prop (Ref measureArray) (Name ''values'') newValues_t))))"
  have m: "?m < 2 ^ 32" using is_arrayD(1) [OF holds_viewD(9) [OF hv]] by simp
  have "for_loop fuel strnum (values_length dataView) ?body 0 (?D 0) = (Ok (), ?D ?m)"
  proof (rule for_loop_run [where H = ?D])
    fix i assume "i \<le> ?m"
    show "values_length dataView (?D i) = (Ok (Prim (Number (Num (real ?m)))), ?D i)"
      by (rule values_length_run [OF holds_view_prefix [OF prefix_derived_heap hv]])
  next
    fix t assume t: "t < ?m"
    note v = holds_view_prefix [OF prefix_derived_heap [of h0 dataView L a b cs t] hv]
    note ad = holds_view_addr [OF hv]
    have 1: "get (?D t) (?res + 1) (Index t) = Ref (column_at L ! t)"
    proof -
      have "get (?D t) (?res + 1) (Index t) = get (?D t) (columns_at L) (Index t)"
        using ad(4) by (intro get_inherited) (simp_all add: derived_heap_def nth_append)
      then show ?thesis using t by (simp add: is_arrayD(3) [OF holds_viewD(9) [OF v]])
    qed
    have 2: "get h (Suc (length h0)) (Index t) = Ref (length h0 + 3 + t)"
      if "prefix (work_heap h0 a b cs) h" for h
    proof -
      have "get h (Suc (length h0)) (Index t) = get (work_heap h0 a b cs) (Suc (length h0)) (Index t)"
        using that by (intro get_prefix) simp_all
      then show ?thesis using t len
        by (simp add: get_array_of_Index [OF _ work_heap_nth(2)])
    qed
    have upd: "(\<lambda>key. case key of
                  Index j \<Rightarrow> if j < t then Some (Ref (?res + 4 + j)) else None
                | _ \<Rightarrow> None)(Index t \<mapsto> Ref x) =
               (\<lambda>key. case key of
                  Index j \<Rightarrow> if j < Suc t then Some (Ref (?res + 4 + j)) else None
                | _ \<Rightarrow> None)" if "x = ?res + 4 + t" for x
      using that by (auto simp: fun_eq_iff split: key.splits)
    let ?new = "\<lparr>proto = Some (column_at L ! t), props = Map.empty\<rparr>"
    let ?h1 = "?D t @ [?new]"
    let ?h2 = "set_prop (?res + 1) (Index t) (Ref (length (?D t))) ?h1"
    have r1: "read_prop (Ref (?res + 1)) (Index t) (?D t) = (Ok (Ref (column_at L ! t)), ?D t)"
      using 1 by simp
    have i1: "inherit (Ref (column_at L ! t)) (?D t) = (Ok (length (?D t)), ?h1)"
      by (simp add: inherit_def alloc_def)
    have w1: "write_prop (Ref (?res + 1)) (Index t) (Ref (length (?D t))) ?h1 = (Ok (), ?h2)"
      by (simp add: write_prop_def)
    have "prefix (work_heap h0 a b cs) ?h1" by (simp add: derived_heap_def)
    then have "prefix (work_heap h0 a b cs) ?h2" by (rule prefix_set_prop) simp
    then have r2: "read_prop (Ref (Suc (length h0))) (Index t) ?h2 =
        (Ok (Ref (length h0 + 3 + t)), ?h2)"
      by (simp add: 2)
    have w2: "write_prop (Ref (length (?D t))) (Name ''values'') (Ref (length h0 + 3 + t)) ?h2 =
        (Ok (), set_prop (length (?D t)) (Name ''values'') (Ref (length h0 + 3 + t)) ?h2)"
      by (simp add: write_prop_def)
    have final: "set_prop (length (?D t)) (Name ''values'') (Ref (length h0 + 3 + t)) ?h2 =
        ?D (Suc t)"
      by (simp add: derived_heap_def set_prop_def nth_append list_update_append upd)
    show "?body t (?D t) = (Ok (), ?D (Suc t))"
      by (simp only: bind_comp_def r1 i1 w1 r2 w2 final prod.case result.case)
  qed (use m fuel in simp_all)
  then show ?thesis by (simp add: set_measures_h_def)
qed


lemma prefix_work_heap_app: "prefix h0 (work_heap h0 a b cs @ R)"
  by (simp add: work_heap_def)

lemma derive_run:
  assumes hv: "holds_view h0 dataView L" and fuel: "length (column_at L) < fuel"
    and len: "length cs = length (column_at L)"
  shows "derive_h fuel strnum dataView (length h0) (Suc (length h0)) (Suc (Suc (length h0)))
           (work_heap h0 a b cs) =
         (Ok (Ref (length h0 + 3 + length cs)),
          derived_heap h0 dataView L a b cs (length (column_at L)))"
proof -
  let ?W = "work_heap h0 a b cs"
  let ?res = "length h0 + 3 + length cs"
  let ?o1 = "\<lparr>proto = Some dataView, props = Map.empty\<rparr>"
  let ?o1' = "\<lparr>proto = Some dataView, props = [Name ''values'' \<mapsto> Ref (?res + 1)]\<rparr>"
  let ?o1'' = "\<lparr>proto = Some dataView,
                 props = [Name ''values'' \<mapsto> Ref (?res + 1), Name ''categories'' \<mapsto> Ref (?res + 2)]\<rparr>"
  let ?o2 = "\<lparr>proto = Some (columns_at L), props = Map.empty\<rparr>"
  let ?o3 = "\<lparr>proto = Some (categories_at L), props = Map.empty\<rparr>"
  let ?o3' = "\<lparr>proto = Some (categories_at L), props = [Index 0 \<mapsto> Ref (?res + 3)]\<rparr>"
  let ?o4 = "\<lparr>proto = Some (category_at L), props = Map.empty\<rparr>"
  let ?o4' = "\<lparr>proto = Some (category_at L), props = [Name ''values'' \<mapsto> Ref (length h0)]\<rparr>"
  let ?o4'' = "\<lparr>proto = Some (category_at L),
                 props = [Name ''values'' \<mapsto> Ref (length h0), Name ''objects'' \<mapsto> Ref (length h0 + 2)]\<rparr>"
  note ad = holds_view_addr [OF hv]
  have v: "holds_view (?W @ R) dataView L" for R
    by (rule holds_view_prefix [OF prefix_work_heap_app hv])
  have lw: "length ?W = ?res" by simp
  have old: "x < length h0 \<Longrightarrow> x < ?res" for x by simp

  have i1: "inherit (Ref dataView) ?W = (Ok ?res, ?W @ [?o1])"
    by (simp add: inherit_def alloc_def)
  have r1: "read_prop (Ref ?res) (Name ''values'') (?W @ [?o1]) = (Ok (Ref (columns_at L)), ?W @ [?o1])"
  proof -
    have "get (?W @ [?o1]) ?res (Name ''values'') = get (?W @ [?o1]) dataView (Name ''values'')"
      using old [OF ad(1)] by (intro get_inherited) (simp_all add: nth_append)
    then show ?thesis by (simp add: holds_viewD(8) [OF v])
  qed
  have i2: "inherit (Ref (columns_at L)) (?W @ [?o1]) = (Ok (?res + 1), ?W @ [?o1, ?o2])"
    by (simp add: inherit_def alloc_def)
  have w2: "write_prop (Ref ?res) (Name ''values'') (Ref (?res + 1)) (?W @ [?o1, ?o2]) =
            (Ok (), ?W @ [?o1', ?o2])"
    by (simp add: write_prop_def set_prop_def nth_append list_update_append)
  have r3: "read_prop (Ref dataView) (Name ''categories'') (?W @ [?o1', ?o2]) =
            (Ok (Ref (categories_at L)), ?W @ [?o1', ?o2])"
    by (simp add: holds_viewD(1) [OF v])
  have i3: "inherit (Ref (categories_at L)) (?W @ [?o1', ?o2]) = (Ok (?res + 2), ?W @ [?o1', ?o2, ?o3])"
    by (simp add: inherit_def alloc_def)
  have w4: "write_prop (Ref ?res) (Name ''categories'') (Ref (?res + 2)) (?W @ [?o1', ?o2, ?o3]) =
            (Ok (), ?W @ [?o1'', ?o2, ?o3])"
    by (simp add: write_prop_def set_prop_def nth_append list_update_append)
  have r5: "read_prop (Ref ?res) (Name ''categories'') (?W @ [?o1'', ?o2, ?o3]) =
            (Ok (Ref (?res + 2)), ?W @ [?o1'', ?o2, ?o3])"
  proof -
    have "get (?W @ [?o1'', ?o2, ?o3]) ?res (Name ''categories'') = Ref (?res + 2)"
      by (intro get_own) (simp_all add: nth_append)
    then show ?thesis by simp
  qed
  have r6: "read_prop (Ref (?res + 2)) (Index 0) (?W @ [?o1'', ?o2, ?o3]) =
            (Ok (Ref (category_at L)), ?W @ [?o1'', ?o2, ?o3])"
  proof -
    have "get (?W @ [?o1'', ?o2, ?o3]) (?res + 2) (Index 0) =
          get (?W @ [?o1'', ?o2, ?o3]) (categories_at L) (Index 0)"
      using old [OF ad(2)] by (intro get_inherited) (simp_all add: nth_append)
    then show ?thesis by (simp add: is_arrayD(3) [OF holds_viewD(2) [OF v]])
  qed
  have i4: "inherit (Ref (category_at L)) (?W @ [?o1'', ?o2, ?o3]) =
            (Ok (?res + 3), ?W @ [?o1'', ?o2, ?o3, ?o4])"
    by (simp add: inherit_def alloc_def)
  have w7: "write_prop (Ref (?res + 2)) (Index 0) (Ref (?res + 3)) (?W @ [?o1'', ?o2, ?o3, ?o4]) =
            (Ok (), ?W @ [?o1'', ?o2, ?o3', ?o4])"
    by (simp add: write_prop_def set_prop_def nth_append list_update_append)
  have w8: "write_prop (Ref (?res + 3)) (Name ''values'') (Ref (length h0)) (?W @ [?o1'', ?o2, ?o3', ?o4]) =
            (Ok (), ?W @ [?o1'', ?o2, ?o3', ?o4'])"
    by (simp add: write_prop_def set_prop_def nth_append list_update_append)
  have r9: "read_prop (Ref (?res + 3)) (Name ''objects'') (?W @ [?o1'', ?o2, ?o3', ?o4']) =
            (Ok (Ref (category_objects_at L)), ?W @ [?o1'', ?o2, ?o3', ?o4'])"
  proof -
    have "get (?W @ [?o1'', ?o2, ?o3', ?o4']) (?res + 3) (Name ''objects'') =
          get (?W @ [?o1'', ?o2, ?o3', ?o4']) (category_at L) (Name ''objects'')"
      using old [OF ad(3)] by (intro get_inherited) (simp_all add: nth_append)
    then show ?thesis by (simp add: holds_viewD(6) [OF v])
  qed
  have w10: "write_prop (Ref (?res + 3)) (Name ''objects'') (Ref (Suc (Suc (length h0))))
               (?W @ [?o1'', ?o2, ?o3', ?o4']) =
            (Ok (), derived_heap h0 dataView L a b cs 0)"
    by (simp add: write_prop_def set_prop_def nth_append list_update_append derived_heap_def
        fun_eq_iff split: key.splits)
  note sm = set_measures_run [OF hv fuel len, of strnum a b]
  show ?thesis
    unfolding derive_h_def derive_tail_h_def
    by (simp only: bind_comp_def i1 r1 i2 w2 r3 i3 w4 r5 r6 i4 w7 w8 r9 w10 sm
        prod.case result.case truthy.simps if_True ret_def)
qed


lemma round_nat_pred:
  assumes "n < 2 ^ 32"
  shows "round_to_double (real n - 1) = Num (real n - 1)"
proof -
  have "\<bar>int n - 1\<bar> < 2 ^ 53" using assms by simp
  from round_to_double_int [OF this] show ?thesis by simp
qed

lemma last_key_unfold:
  "last_key (Prim (Number (Num x))) =
     (case round_to_double (x - 1) of
        Num r \<Rightarrow> if 0 \<le> r \<and> r = of_int \<lfloor>r\<rfloor> then Index (nat \<lfloor>r\<rfloor>) else NumericName (Num r)
      | n \<Rightarrow> NumericName n)"
  by (simp add: last_key_def)

lemma last_key_0: "last_key (Prim (Number (Num (real 0)))) = NumericName (Num (- 1))"
  using round_nat_pred [of 0] by (simp add: last_key_unfold)

lemma last_key_Suc:
  assumes "Suc k < 2 ^ 32"
  shows "last_key (Prim (Number (Num (real (Suc k))))) = Index k"
proof -
  have "real (Suc k) - 1 = real k" by simp
  with round_nat_pred [OF assms] have "round_to_double (real (Suc k) - 1) = Num (real k)"
    by (simp only:)
  then show ?thesis unfolding last_key_unfold by simp
qed

lemma last_value:
  assumes arr: "is_array W cv (map Prim cvs)"
  shows "get W cv (last_key (Prim (Number (Num (real (length cvs)))))) =
         Prim (js_index Undefined cvs (int (length cvs) - 1))"
proof (cases "length cvs")
  case 0
  then have "js_index Undefined cvs (int (length cvs) - 1) = Undefined"
    by (simp add: js_index_def)
  then show ?thesis unfolding 0 last_key_0 by (simp only: is_arrayD(4) [OF arr])
next
  case (Suc k)
  have "Suc k < 2 ^ 32" using is_arrayD(1) [OF arr] Suc by simp
  note key = last_key_Suc [OF this]
  have a: "get W cv (Index k) = Prim (cvs ! k)"
    using Suc by (simp add: is_arrayD(3) [OF arr])
  have b: "js_index Undefined cvs (int (Suc k) - 1) = cvs ! k"
    using Suc by (simp add: js_index_def)
  show ?thesis unfolding Suc key a b ..
qed

lemma bind_comp_run: "m h = (Ok x, h1) \<Longrightarrow> f x h1 = r \<Longrightarrow> bind_comp m f h = r"
  by (simp add: bind_comp_def)

lemma build_run:
  assumes hv: "holds_view h0 dataView L"
    and fuel: "length (column_at L) < fuel" and fuel2: "length (category_values L) < fuel"
    and ok: "\<not> js_gt strnum (resolved_min pmn (category_values L))
                            (resolved_max pmx (category_values L))"
  shows "build_h fuel strnum dataView (Ref (category_values_at L)) (Ref (category_objects_at L))
           (Prim pmn) (Prim pmx) (length h0) (Suc (length h0)) (Suc (Suc (length h0)))
           (work_heap h0 [] [] []) =
         (Ok (Ref (length h0 + 3 + length (column_at L))),
          derived_heap h0 dataView L
            (map Prim (restrict_to Undefined
               (kept_indices strnum (resolved_min pmn (category_values L))
                  (resolved_max pmx (category_values L)) (category_values L))
               (category_values L)))
            (restrict_to (Prim Undefined)
               (kept_indices strnum (resolved_min pmn (category_values L))
                  (resolved_max pmx (category_values L)) (category_values L))
               (category_objects L))
            (map (\<lambda>k. restrict_to (Prim Undefined)
                    (kept_indices strnum (resolved_min pmn (category_values L))
                       (resolved_max pmx (category_values L)) (category_values L))
                    (column_values L ! k))
               [0 ..< length (column_at L)])
            (length (column_at L)))"
proof -
  let ?W = "work_heap h0 [] [] []"
  let ?cvs = "category_values L"
  let ?lo = "resolved_min pmn ?cvs" and ?hi = "resolved_max pmx ?cvs"
  note v = holds_view_prefix [OF prefix_work_heap [of h0 "[]" "[]" "[]"] hv]
  note arr = holds_viewD(5) [OF v]
  have mn: "(if \<not> typeof_number_h (Prim pmn)
             then read_prop (Ref (category_values_at L)) (Index 0) else ret (Prim pmn)) ?W =
            (Ok (Prim ?lo), ?W)"
    by (simp add: typeof_number_h_def resolved_min_def ret_def is_arrayD(3) [OF arr] js_index_def)
  note last = last_value [OF arr]
  have mx: "(if \<not> typeof_number_h (Prim pmx)
             then bind_comp (read_prop (Ref (category_values_at L)) (Name ''length''))
                    (\<lambda>len. read_prop (Ref (category_values_at L)) (last_key len))
             else ret (Prim pmx)) ?W =
            (Ok (Prim ?hi), ?W)"
    by (simp add: typeof_number_h_def resolved_max_def ret_def bind_comp_def
        is_arrayD(2) [OF arr] last)
  note init = init_run [OF hv fuel, of strnum]
  note loop = filter_loop_run [OF hv fuel fuel2, of strnum ?lo ?hi]
  have len: "length (map (\<lambda>k. restrict_to (Prim Undefined) (kept_indices strnum ?lo ?hi ?cvs)
                    (column_values L ! k)) [0 ..< length (column_at L)]) = length (column_at L)"
    by simp
  note der = derive_run [OF hv fuel len, of strnum, unfolded len]
  show ?thesis
    unfolding build_h_def
    apply (rule bind_comp_run, rule mn)
    apply (rule bind_comp_run, rule mx)
    apply (simp only: prim_of.simps ok if_False)
    apply (rule bind_comp_run, rule init)
    apply (rule bind_comp_run, rule loop)
    apply (rule der)
    done
qed


lemma alloc3:
  "bind_comp new_array (\<lambda>ncv. bind_comp new_array (\<lambda>nv. bind_comp new_array
      (\<lambda>nobj. B ncv nv nobj))) h0 =
   B (length h0) (Suc (length h0)) (Suc (Suc (length h0))) (work_heap h0 [] [] [])"
  by (simp add: bind_comp_def new_array_eq work_heap_def)

lemma transformDomain_run:
  assumes hv: "holds_view h0 dataView L"
    and ord: "\<not> isOrdinal h0 (get h0 (source_at L) (Name ''type''))"
    and num: "typeof_number pmn \<or> typeof_number pmx"
    and ok: "\<not> js_gt strnum (resolved_min pmn (category_values L))
                            (resolved_max pmx (category_values L))"
    and fuel: "length (column_at L) < fuel" and fuel2: "length (category_values L) < fuel"
  shows "transformDomain_h fuel isOrdinal strnum dataView (Prim pmn) (Prim pmx) h0 =
         (Ok (Ref (length h0 + 3 + length (column_at L))),
          derived_heap h0 dataView L
            (map Prim (restrict_to Undefined
               (kept_indices strnum (resolved_min pmn (category_values L))
                  (resolved_max pmx (category_values L)) (category_values L))
               (category_values L)))
            (restrict_to (Prim Undefined)
               (kept_indices strnum (resolved_min pmn (category_values L))
                  (resolved_max pmx (category_values L)) (category_values L))
               (category_objects L))
            (map (\<lambda>k. restrict_to (Prim Undefined)
                    (kept_indices strnum (resolved_min pmn (category_values L))
                       (resolved_max pmx (category_values L)) (category_values L))
                    (column_values L ! k))
               [0 ..< length (column_at L)])
            (length (column_at L)))"
proof -
  note d = holds_viewD [OF hv]
  have num': "\<not> (\<not> typeof_number_h (Prim pmn) \<and> \<not> typeof_number_h (Prim pmx))"
    using num by (simp add: typeof_number_h_def)
  have cl: "Prim (Number (Num (real (length (Ref (category_at L) # other_categories L))))) \<noteq>
            Prim (Number (Num 0))" by simp
  have vl: "Prim (Number (Num (real (length (map Ref (column_at L)))))) \<noteq> Prim (Number (Num 0))"
    using d(10) by simp
  have c0: "get h0 (categories_at L) (Index 0) = Ref (category_at L)"
    by (simp add: is_arrayD(3) [OF d(2)])
  show ?thesis
    unfolding transformDomain_h_def
    apply (rule bind_comp_run, rule read_prop_Ref)
    apply (simp only: d(1) truthy.simps not_True_eq_False if_False)
    apply (rule bind_comp_run, rule read_prop_Ref)
    apply (simp only: d(8) truthy.simps not_True_eq_False if_False)
    apply (rule bind_comp_run, rule read_prop_Ref)
    apply (simp only: is_arrayD(2) [OF d(2)] cl if_False)
    apply (rule bind_comp_run, rule read_prop_Ref)
    apply (simp only: is_arrayD(2) [OF d(9)] vl num' if_False)
    apply (rule bind_comp_run, rule read_prop_Ref)
    apply (simp only: c0 truthy.simps if_True)
    apply (rule bind_comp_run)
     apply (rule bind_comp_run, rule read_prop_Ref)
     apply (simp only: d(3))
     apply (rule read_prop_Ref)
    apply (rule bind_comp_run)
     apply (simp only: ask_def)
    apply (simp only: ord if_False)
    apply (rule bind_comp_run, rule read_prop_Ref)
    apply (rule bind_comp_run, rule read_prop_Ref)
    apply (simp only: d(4) d(6) truthy.simps not_True_eq_False simp_thms if_False)
    apply (simp only: alloc3)
    apply (rule build_run [OF hv fuel fuel2 ok])
    done
qed


lemma is_array_array_of:
  assumes "a < length h" "h ! a = array_of xs" "length xs < 2 ^ 32"
  shows "is_array h a xs"
  using assms by (simp add: is_array_def get.simps [of h a] array_of_def)

lemma holds_view_example: "holds_view example_heap 0 example_layout"
proof -
  have a: "is_array example_heap 1 [Ref 2]"
    "is_array example_heap 4 (map Prim [Number (Num 1), Number (Num 2), Number (Num 3)])"
    "is_array example_heap 8 [Prim Undefined, Prim Undefined, Prim Undefined]"
    "is_array example_heap 5 (map Ref [6])"
    "is_array example_heap 7 [Prim (Number (Num 10)), Prim (Number (Num 20)), Prim (Number (Num 30))]"
    by (rule is_array_array_of; simp add: example_heap_def)+
  have g: "get example_heap 0 (Name ''categories'') = Ref 1"
    "get example_heap 0 (Name ''values'') = Ref 5"
    "get example_heap 2 (Name ''source'') = Ref 3"
    "get example_heap 2 (Name ''values'') = Ref 4"
    "get example_heap 2 (Name ''objects'') = Ref 8"
    "get example_heap 6 (Name ''values'') = Ref 7"
    by (rule get_own; simp add: example_heap_def)+
  show ?thesis
    unfolding holds_view_def example_layout_def using a g by simp
qed

text \<open>
  C9: \<open>transformDomain\<close> never mutates its input, and what it returns when it filters is
  newly derived. First, for every call, whatever it is given and however it ends: the
  final heap begins with the input heap, so every object of the input (the data view,
  its category column, its value columns and all nested arrays among them) is what it
  was; a returned value is the input data view, \<open>undefined\<close>, or a new object whose
  prototype is the input data view and whose own properties are \<open>values\<close> and
  \<open>categories\<close>, both new; and no new object holds an input object as its \<open>values\<close>,
  \<open>objects\<close> or \<open>categories\<close>. Second, when filtering occurs, that is on an input laid
  out as the host types say, with a first category column that is not ordinal, a numeric
  bound and resolved bounds that are not \<open>min > max\<close>, and with fuel for the loops: the
  call returns the new object at \<open>res\<close>, and the final heap is the input heap followed by
  exactly these new objects: the filtered category values, the helper array
  \<open>newValues\<close>, the filtered metadata objects, one filtered array per value column; the
  derived data view (prototype: the input data view; own: \<open>values\<close>, \<open>categories\<close>), its
  \<open>values\<close> (prototype: the input's; own: every column), its \<open>categories\<close> (prototype:
  the input's; own: the first column), the derived first category column (prototype:
  the input's; own: \<open>values\<close> and \<open>objects\<close>, the two filtered arrays), and per value
  column a derived column (prototype: the input's; own: \<open>values\<close>, its filtered array).
  The filtered sequences are the input's restricted to the kept indices of C1.
\<close>

theorem transformDomain_h_frame:
  "(transformDomain_h fuel isOrdinal strnum dataView mn mx h0 = (r, h') \<longrightarrow>
      length h0 \<le> length h' \<and> (\<forall>a < length h0. h' ! a = h0 ! a) \<and>
      (\<forall>x. r = Ok x \<longrightarrow>
         x = Ref dataView \<or> x = Prim Undefined \<or>
         (\<exists>res rvs rcs.
            x = Ref res \<and> length h0 \<le> res \<and> res < length h' \<and>
            proto (h' ! res) = Some dataView \<and>
            props (h' ! res) = [Name ''values'' \<mapsto> Ref rvs, Name ''categories'' \<mapsto> Ref rcs] \<and>
            length h0 \<le> rvs \<and> length h0 \<le> rcs)) \<and>
      (\<forall>a k b. length h0 \<le> a \<and> a < length h' \<and>
         k \<in> {Name ''values'', Name ''objects'', Name ''categories''} \<and>
         props (h' ! a) k = Some (Ref b) \<longrightarrow> length h0 \<le> b)) \<and>
   (holds_view h0 dataView L \<and>
    \<not> isOrdinal h0 (get h0 (source_at L) (Name ''type'')) \<and>
    (typeof_number pmn \<or> typeof_number pmx) \<and>
    \<not> js_gt strnum (resolved_min pmn (category_values L)) (resolved_max pmx (category_values L)) \<and>
    length (column_at L) < fuel \<and> length (category_values L) < fuel \<longrightarrow>
    (let n0 = length h0; m = length (column_at L); res = n0 + 3 + m;
         kept = kept_indices strnum (resolved_min pmn (category_values L))
                  (resolved_max pmx (category_values L)) (category_values L)
     in transformDomain_h fuel isOrdinal strnum dataView (Prim pmn) (Prim pmx) h0 =
        (Ok (Ref res),
         h0 @
         [array_of (map Prim (restrict_to Undefined kept (category_values L))),
          array_of (map (\<lambda>k. Ref (n0 + 3 + k)) [0 ..< m]),
          array_of (restrict_to (Prim Undefined) kept (category_objects L))] @
         map (\<lambda>k. array_of (restrict_to (Prim Undefined) kept (column_values L ! k))) [0 ..< m] @
         [\<lparr>proto = Some dataView,
           props = [Name ''values'' \<mapsto> Ref (res + 1), Name ''categories'' \<mapsto> Ref (res + 2)]\<rparr>,
          \<lparr>proto = Some (columns_at L),
           props = (\<lambda>key. case key of
                      Index k \<Rightarrow> if k < m then Some (Ref (res + 4 + k)) else None
                    | _ \<Rightarrow> None)\<rparr>,
          \<lparr>proto = Some (categories_at L), props = [Index 0 \<mapsto> Ref (res + 3)]\<rparr>,
          \<lparr>proto = Some (category_at L),
           props = [Name ''values'' \<mapsto> Ref n0, Name ''objects'' \<mapsto> Ref (n0 + 2)]\<rparr>] @
         map (\<lambda>k. \<lparr>proto = Some (column_at L ! k),
                    props = [Name ''values'' \<mapsto> Ref (n0 + 3 + k)]\<rparr>) [0 ..< m])))"
proof (intro conjI impI)
  assume run: "transformDomain_h fuel isOrdinal strnum dataView mn mx h0 = (r, h')"
  note u = transformDomain_h_unchanged [OF run]
  show "length h0 \<le> length h'" using u(1) by (rule prefix_length_le)
  show "\<forall>a < length h0. h' ! a = h0 ! a" using u(1) by (simp add: prefix_nth)
  show "\<forall>x. r = Ok x \<longrightarrow>
         x = Ref dataView \<or> x = Prim Undefined \<or>
         (\<exists>res rvs rcs.
            x = Ref res \<and> length h0 \<le> res \<and> res < length h' \<and>
            proto (h' ! res) = Some dataView \<and>
            props (h' ! res) = [Name ''values'' \<mapsto> Ref rvs, Name ''categories'' \<mapsto> Ref rcs] \<and>
            length h0 \<le> rvs \<and> length h0 \<le> rcs)"
    by (rule u(2))
  show "\<forall>a k b. length h0 \<le> a \<and> a < length h' \<and>
         k \<in> {Name ''values'', Name ''objects'', Name ''categories''} \<and>
         props (h' ! a) k = Some (Ref b) \<longrightarrow> length h0 \<le> b"
    by (rule u(3))
next
  assume a: "holds_view h0 dataView L \<and>
    \<not> isOrdinal h0 (get h0 (source_at L) (Name ''type'')) \<and>
    (typeof_number pmn \<or> typeof_number pmx) \<and>
    \<not> js_gt strnum (resolved_min pmn (category_values L)) (resolved_max pmx (category_values L)) \<and>
    length (column_at L) < fuel \<and> length (category_values L) < fuel"
  then have "transformDomain_h fuel isOrdinal strnum dataView (Prim pmn) (Prim pmx) h0 =
         (Ok (Ref (length h0 + 3 + length (column_at L))),
          derived_heap h0 dataView L
            (map Prim (restrict_to Undefined
               (kept_indices strnum (resolved_min pmn (category_values L))
                  (resolved_max pmx (category_values L)) (category_values L))
               (category_values L)))
            (restrict_to (Prim Undefined)
               (kept_indices strnum (resolved_min pmn (category_values L))
                  (resolved_max pmx (category_values L)) (category_values L))
               (category_objects L))
            (map (\<lambda>k. restrict_to (Prim Undefined)
                    (kept_indices strnum (resolved_min pmn (category_values L))
                       (resolved_max pmx (category_values L)) (category_values L))
                    (column_values L ! k))
               [0 ..< length (column_at L)])
            (length (column_at L)))"
    by (intro transformDomain_run) simp_all
  then show "let n0 = length h0; m = length (column_at L); res = n0 + 3 + m;
         kept = kept_indices strnum (resolved_min pmn (category_values L))
                  (resolved_max pmx (category_values L)) (category_values L)
     in transformDomain_h fuel isOrdinal strnum dataView (Prim pmn) (Prim pmx) h0 =
        (Ok (Ref res),
         h0 @
         [array_of (map Prim (restrict_to Undefined kept (category_values L))),
          array_of (map (\<lambda>k. Ref (n0 + 3 + k)) [0 ..< m]),
          array_of (restrict_to (Prim Undefined) kept (category_objects L))] @
         map (\<lambda>k. array_of (restrict_to (Prim Undefined) kept (column_values L ! k))) [0 ..< m] @
         [\<lparr>proto = Some dataView,
           props = [Name ''values'' \<mapsto> Ref (res + 1), Name ''categories'' \<mapsto> Ref (res + 2)]\<rparr>,
          \<lparr>proto = Some (columns_at L),
           props = (\<lambda>key. case key of
                      Index k \<Rightarrow> if k < m then Some (Ref (res + 4 + k)) else None
                    | _ \<Rightarrow> None)\<rparr>,
          \<lparr>proto = Some (categories_at L), props = [Index 0 \<mapsto> Ref (res + 3)]\<rparr>,
          \<lparr>proto = Some (category_at L),
           props = [Name ''values'' \<mapsto> Ref n0, Name ''objects'' \<mapsto> Ref (n0 + 2)]\<rparr>] @
         map (\<lambda>k. \<lparr>proto = Some (column_at L ! k),
                    props = [Name ''values'' \<mapsto> Ref (n0 + 3 + k)]\<rparr>) [0 ..< m])"
    by (simp add: Let_def derived_heap_def work_heap_def comp_def fun_eq_iff split: key.splits)
qed

theorem transformDomain_h_frame_witness:
  "transformDomain_h 4 example_isOrdinal_h example_strnum 0 (Prim (Number (Num 2)))
     (Prim Undefined) example_heap =
   (Ok (Ref 13),
    example_heap @
    [array_of [Prim (Number (Num 2)), Prim (Number (Num 3))],
     array_of [Ref 12],
     array_of [Prim Undefined, Prim Undefined],
     array_of [Prim (Number (Num 20)), Prim (Number (Num 30))],
     \<lparr>proto = Some 0, props = [Name ''values'' \<mapsto> Ref 14, Name ''categories'' \<mapsto> Ref 15]\<rparr>,
     \<lparr>proto = Some 5,
      props = (\<lambda>key. case key of Index k \<Rightarrow> if k < 1 then Some (Ref (17 + k)) else None
                      | _ \<Rightarrow> None)\<rparr>,
     \<lparr>proto = Some 1, props = [Index 0 \<mapsto> Ref 16]\<rparr>,
     \<lparr>proto = Some 2, props = [Name ''values'' \<mapsto> Ref 9, Name ''objects'' \<mapsto> Ref 11]\<rparr>,
     \<lparr>proto = Some 6, props = [Name ''values'' \<mapsto> Ref 12]\<rparr>]) \<and>
   length example_heap \<le>
     length (snd (transformDomain_h 4 example_isOrdinal_h example_strnum 0
                    (Prim (Number (Num 2))) (Prim Undefined) example_heap)) \<and>
   snd (transformDomain_h 4 example_isOrdinal_h example_strnum 0
          (Prim (Number (Num 2))) (Prim Undefined) example_heap) ! 4 = example_heap ! 4"
proof -
  have l: "length example_heap = 9" by (simp add: example_heap_def)
  have t: "get example_heap 3 (Name ''type'') = Prim (Boolean False)"
    by (rule get_own; simp add: example_heap_def)
  have o: "\<not> example_isOrdinal_h example_heap (get example_heap (source_at example_layout) (Name ''type''))"
    by (simp add: example_layout_def t example_isOrdinal_h_def)
  have g: "\<not> js_gt example_strnum
              (resolved_min (Number (Num 2)) (category_values example_layout))
              (resolved_max Undefined (category_values example_layout))"
    by (simp add: example_layout_def js_defs)
  have k: "kept_indices example_strnum
              (resolved_min (Number (Num 2)) [Number (Num 1), Number (Num 2), Number (Num 3)])
              (resolved_max Undefined [Number (Num 1), Number (Num 2), Number (Num 3)])
              [Number (Num 1), Number (Num 2), Number (Num 3)] = [1, 2]"
    by (simp add: js_defs example_strnum_def upt_rec)
  have f: "length (column_at example_layout) < 4" "length (category_values example_layout) < 4"
    by (simp_all add: example_layout_def)
  from transformDomain_h_frame [of 4 example_isOrdinal_h example_strnum 0
      "Prim (Number (Num 2))" "Prim Undefined" example_heap
      "fst (transformDomain_h 4 example_isOrdinal_h example_strnum 0
          (Prim (Number (Num 2))) (Prim Undefined) example_heap)"
      "snd (transformDomain_h 4 example_isOrdinal_h example_strnum 0
          (Prim (Number (Num 2))) (Prim Undefined) example_heap)"
      example_layout "Number (Num 2)" Undefined]
    holds_view_example o g f
  show ?thesis
    by (simp add: Let_def l k restrict_to_def js_index_def example_layout_def fun_eq_iff
        nth_append split: key.splits)
qed

end
